theory Spec2Isabelle
  imports Main "HOL-Library.Word"
begin

unbundle bit_operations_syntax

section \<open>Zobrist hashing of chess positions: the \<open>ChessHasher\<close> class of index.ts\<close>

text \<open>
  The class \<open>ChessHasher\<close> turns a FEN string into a 16-digit hexadecimal hash by XOR-ing
  entries of a table of constants. The table (\<open>polyglot_hashes\<close>, imported from
  \<open>./hashes\<close>) is a parameter \<open>hashes\<close> of every function that reads it: a list of
  strings. A string is a list of code units; a code unit above 255 belongs to none of
  the character classes the code tests and is not represented.
\<close>

subsection \<open>Numbers, hashes and exceptions\<close>

text \<open>
  \<open>type Hash = number[]\<close>. The numbers that occur are the results of \<open>parseInt\<close> and of
  the operator \<open>^\<close>: an integer or \<open>NaN\<close>.
\<close>

datatype number = NaN | Num int

type_synonym Hash = "number list"

text \<open>
  The one exception the code can raise: reading \<open>.length\<close> of \<open>undefined\<close> in
  \<open>parseHexString\<close>, when \<open>hashes[num]\<close> is outside the table.
\<close>

datatype exn = TypeError

text \<open>The instance fields of \<open>ChessHasher\<close>, with their initialisers.\<close>

record ChessHasher =
  error :: bool
  enPasRank :: int
  enPasFile :: int
  pawnNearby :: bool

definition newChessHasher :: ChessHasher where
  "newChessHasher = \<lparr>error = False, enPasRank = - 1, enPasFile = - 1, pawnNearby = False\<rparr>"

subsection \<open>Strings: \<open>split\<close>, \<open>trim\<close>, \<open>parseInt\<close>, \<open>toString(16)\<close>, \<open>padStart\<close>\<close>

text \<open>\<open>str.split(sep)\<close> for a one-character separator: never empty, \<open>"".split(sep) = [""]\<close>.\<close>

fun splitStr :: "char \<Rightarrow> string \<Rightarrow> string list" where
  "splitStr sep [] = [[]]"
| "splitStr sep (c # cs) =
     (if c = sep then [] # splitStr sep cs
      else (case splitStr sep cs of r # rs \<Rightarrow> (c # r) # rs | [] \<Rightarrow> [[c]]))"

text \<open>White space as \<open>trim\<close> and \<open>parseInt\<close> strip it: TAB, LF, VT, FF, CR, SP, NBSP.\<close>

definition isWhiteSpace :: "char \<Rightarrow> bool" where
  "isWhiteSpace c = ((of_char c :: nat) \<in> {9, 10, 11, 12, 13, 32, 160})"

definition trim :: "string \<Rightarrow> string" where
  "trim s = rev (dropWhile isWhiteSpace (rev (dropWhile isWhiteSpace s)))"

definition hexDigitValue :: "char \<Rightarrow> int option" where
  "hexDigitValue c =
     (let n = (of_char c :: int) in
      if 48 \<le> n \<and> n \<le> 57 then Some (n - 48)
      else if 97 \<le> n \<and> n \<le> 102 then Some (n - 87)
      else if 65 \<le> n \<and> n \<le> 70 then Some (n - 55)
      else None)"

definition isHexDigit :: "char \<Rightarrow> bool" where
  "isHexDigit c = (hexDigitValue c \<noteq> None)"

definition hexValue :: "string \<Rightarrow> int" where
  "hexValue ds = foldl (\<lambda>acc c. 16 * acc + (case hexDigitValue c of Some d \<Rightarrow> d | None \<Rightarrow> 0)) 0 ds"

text \<open>
  \<open>parseInt(s, 16)\<close>: leading white space, a sign, a prefix \<open>0x\<close>, then the longest run
  of hexadecimal digits; \<open>NaN\<close> when that run is empty.
\<close>

definition parseInt16 :: "string \<Rightarrow> number" where
  "parseInt16 s =
     (let t = dropWhile isWhiteSpace s;
          neg = (t \<noteq> [] \<and> hd t = CHR ''-'');
          u = (if t \<noteq> [] \<and> (hd t = CHR ''-'' \<or> hd t = CHR ''+'') then tl t else t);
          v = (if take 2 u = ''0x'' \<or> take 2 u = ''0X'' then drop 2 u else u);
          ds = takeWhile isHexDigit v
      in if ds = [] then NaN else Num ((if neg then - 1 else 1) * hexValue ds))"

definition hexChar :: "nat \<Rightarrow> char" where
  "hexChar d = ''0123456789abcdef'' ! d"

fun hexDigits :: "nat \<Rightarrow> string" where
  "hexDigits n = (if n < 16 then [hexChar n] else hexDigits (n div 16) @ [hexChar (n mod 16)])"

declare hexDigits.simps [simp del]

text \<open>\<open>byte.toString(16)\<close>.\<close>

definition toString16 :: "number \<Rightarrow> string" where
  "toString16 x =
     (case x of NaN \<Rightarrow> ''NaN''
      | Num n \<Rightarrow> if n < 0 then CHR ''-'' # hexDigits (nat (- n)) else hexDigits (nat n))"

text \<open>\<open>s.padStart(2, '0')\<close>.\<close>

definition padStart2 :: "string \<Rightarrow> string" where
  "padStart2 s = replicate (2 - length s) (CHR ''0'') @ s"

subsection \<open>\<open>parseHexString\<close>, \<open>createHexString\<close>, \<open>xorArrays\<close>, \<open>xorHash\<close>\<close>

fun parseHexString :: "string \<Rightarrow> Hash" where
  "parseHexString (a # b # remaining) = parseInt16 [a, b] # parseHexString remaining"
| "parseHexString remaining = []"

definition emptyHash :: Hash where
  "emptyHash = parseHexString ''0000000000000000''"

definition createHexString :: "Hash \<Rightarrow> string" where
  "createHexString arr = concat (map (\<lambda>byte. padStart2 (toString16 byte)) arr)"

text \<open>The operator \<open>^\<close>: both operands through ToInt32 (\<open>NaN\<close> becomes 0), then XOR.\<close>

definition toInt32 :: "number \<Rightarrow> int" where
  "toInt32 x = (case x of NaN \<Rightarrow> 0 | Num n \<Rightarrow> (n + 2 ^ 31) mod 2 ^ 32 - 2 ^ 31)"

definition jsXor :: "number \<Rightarrow> number \<Rightarrow> number" where
  "jsXor x y = Num (toInt32 x XOR toInt32 y)"

definition xorArrays :: "Hash \<Rightarrow> Hash \<Rightarrow> Hash" where
  "xorArrays a b = map (\<lambda>(x, y). jsXor x y) (zip a b)"

text \<open>
  \<open>hashes[num]\<close> is \<open>undefined\<close> outside the table, and \<open>parseHexString(undefined)\<close>
  raises a TypeError at \<open>remaining.length\<close>.
\<close>

definition xorHash :: "string list \<Rightarrow> Hash \<Rightarrow> int \<Rightarrow> exn + Hash" where
  "xorHash hashes arr num =
     (if 0 \<le> num \<and> num < int (length hashes)
      then Inr (xorArrays arr (parseHexString (hashes ! nat num)))
      else Inl TypeError)"

subsection \<open>\<open>parseEnPassant\<close>, \<open>hashSide\<close>, \<open>hashCastling\<close>\<close>

definition parseEnPassant :: "ChessHasher \<Rightarrow> string \<Rightarrow> ChessHasher" where
  "parseEnPassant this str =
     (if str = [] \<or> str = ''-'' then this
      else if length str \<noteq> 2 then this\<lparr>error := True\<rparr>
      else
        let f = of_char (str ! 0) - 97;
            r = of_char (str ! 1) - 49
        in if f < 0 \<or> f > 7 \<or> r < 0 \<or> r > 7 then this\<lparr>error := True\<rparr>
           else this\<lparr>enPasFile := f, enPasRank := r\<rparr>)"

definition hashSide :: "string list \<Rightarrow> Hash \<Rightarrow> string \<Rightarrow> exn + Hash" where
  "hashSide hashes arr str = (if str = ''w'' then xorHash hashes arr 780 else Inr arr)"

text \<open>Sequencing of calls that may raise.\<close>

definition andThen :: "exn + 'a \<Rightarrow> ('a \<Rightarrow> exn + 'b) \<Rightarrow> exn + 'b" where
  "andThen r f = (case r of Inl e \<Rightarrow> Inl e | Inr x \<Rightarrow> f x)"

definition hashCastling :: "string list \<Rightarrow> Hash \<Rightarrow> string \<Rightarrow> exn + Hash" where
  "hashCastling hashes arr str =
     (if str = ''-'' then Inr arr
      else
        andThen (if CHR ''K'' \<in> set str then xorHash hashes arr 768 else Inr arr) (\<lambda>arr.
        andThen (if CHR ''Q'' \<in> set str then xorHash hashes arr 769 else Inr arr) (\<lambda>arr.
        andThen (if CHR ''k'' \<in> set str then xorHash hashes arr 770 else Inr arr) (\<lambda>arr.
                (if CHR ''q'' \<in> set str then xorHash hashes arr 771 else Inr arr)))))"

subsection \<open>\<open>hashPieces\<close>\<close>

text \<open>
  How one turn of the loop over the characters of a rank ends: it goes on with the
  accumulator and the file counter, it leaves \<open>hashPieces\<close> through \<open>return arr\<close>, or
  \<open>xorHash\<close> raised.
\<close>

datatype flow = Continue Hash int | Return Hash | Throw exn

text \<open>The cases of the \<open>switch\<close> for a piece other than a pawn: XOR, then \<open>file++\<close>.\<close>

definition pieceCase :: "string list \<Rightarrow> ChessHasher \<Rightarrow> Hash \<Rightarrow> int \<Rightarrow> int \<Rightarrow> ChessHasher \<times> flow" where
  "pieceCase hashes this arr num file =
     (case xorHash hashes arr num of
        Inl e \<Rightarrow> (this, Throw e)
      | Inr arr' \<Rightarrow> (this, Continue arr' (file + 1)))"

text \<open>
  The cases \<open>"p"\<close> and \<open>"P"\<close>: XOR, the two adjacency tests against the en-passant
  square (\<open>epRank\<close> and \<open>pawnRank\<close> are 2 and 3 for \<open>"p"\<close>, 5 and 4 for \<open>"P"\<close>), then
  \<open>file++\<close>.
\<close>

definition pawnCase :: "string list \<Rightarrow> ChessHasher \<Rightarrow> Hash \<Rightarrow> int \<Rightarrow> int \<Rightarrow> int \<Rightarrow> int \<Rightarrow> int \<Rightarrow> ChessHasher \<times> flow" where
  "pawnCase hashes this arr num epRank pawnRank rank file =
     (case xorHash hashes arr num of
        Inl e \<Rightarrow> (this, Throw e)
      | Inr arr' \<Rightarrow>
          let this1 = (if enPasRank this = epRank \<and> rank = pawnRank \<and> enPasFile this > 0
                          \<and> file = enPasFile this - 1
                       then this\<lparr>pawnNearby := True\<rparr> else this);
              this2 = (if enPasRank this1 = epRank \<and> rank = pawnRank \<and> enPasFile this1 < 7
                          \<and> file = enPasFile this1 + 1
                       then this1\<lparr>pawnNearby := True\<rparr> else this1)
          in (this2, Continue arr' (file + 1)))"

text \<open>The body of the inner loop: \<open>switch (ranks[i][j])\<close>.\<close>

definition switchChar :: "string list \<Rightarrow> int \<Rightarrow> ChessHasher \<Rightarrow> Hash \<Rightarrow> int \<Rightarrow> char \<Rightarrow> ChessHasher \<times> flow" where
  "switchChar hashes rank this arr file c =
     (if c = CHR ''p'' then pawnCase hashes this arr (8 * rank + file) 2 3 rank file
      else if c = CHR ''P'' then pawnCase hashes this arr (64 * 1 + 8 * rank + file) 5 4 rank file
      else if c = CHR ''n'' then pieceCase hashes this arr (64 * 2 + 8 * rank + file) file
      else if c = CHR ''N'' then pieceCase hashes this arr (64 * 3 + 8 * rank + file) file
      else if c = CHR ''b'' then pieceCase hashes this arr (64 * 4 + 8 * rank + file) file
      else if c = CHR ''B'' then pieceCase hashes this arr (64 * 5 + 8 * rank + file) file
      else if c = CHR ''r'' then pieceCase hashes this arr (64 * 6 + 8 * rank + file) file
      else if c = CHR ''R'' then pieceCase hashes this arr (64 * 7 + 8 * rank + file) file
      else if c = CHR ''q'' then pieceCase hashes this arr (64 * 8 + 8 * rank + file) file
      else if c = CHR ''Q'' then pieceCase hashes this arr (64 * 9 + 8 * rank + file) file
      else if c = CHR ''k'' then pieceCase hashes this arr (64 * 10 + 8 * rank + file) file
      else if c = CHR ''K'' then pieceCase hashes this arr (64 * 11 + 8 * rank + file) file
      else if c \<in> set ''012345678'' then (this, Continue arr (file + (of_char c - 48)))
      else (this\<lparr>error := True\<rparr>, Return arr))"

text \<open>The inner loop \<open>for (j ...)\<close> over the characters of \<open>ranks[i]\<close>.\<close>

fun rankLoop :: "string list \<Rightarrow> int \<Rightarrow> ChessHasher \<Rightarrow> Hash \<Rightarrow> int \<Rightarrow> string \<Rightarrow> ChessHasher \<times> flow" where
  "rankLoop hashes rank this arr file [] = (this, Continue arr file)"
| "rankLoop hashes rank this arr file (c # cs) =
     (case switchChar hashes rank this arr file c of
        (this', Continue arr' file') \<Rightarrow> rankLoop hashes rank this' arr' file' cs
      | (this', Return arr') \<Rightarrow> (this', Return arr')
      | (this', Throw e) \<Rightarrow> (this', Throw e))"

text \<open>
  The outer loop \<open>for (i ...)\<close>, over the eight ranks from \<open>ranks[i]\<close> on: \<open>file = 0\<close>,
  \<open>rank = 7 - i\<close>, the inner loop, then the test \<open>file != 8\<close>.
\<close>

fun ranksLoop :: "string list \<Rightarrow> ChessHasher \<Rightarrow> Hash \<Rightarrow> int \<Rightarrow> string list \<Rightarrow> ChessHasher \<times> (exn + Hash)" where
  "ranksLoop hashes this arr i [] = (this, Inr arr)"
| "ranksLoop hashes this arr i (r # rs) =
     (case rankLoop hashes (7 - i) this arr 0 r of
        (this', Continue arr' file) \<Rightarrow>
          ranksLoop hashes (if file \<noteq> 8 then this'\<lparr>error := True\<rparr> else this') arr' (i + 1) rs
      | (this', Return arr') \<Rightarrow> (this', Inr arr')
      | (this', Throw e) \<Rightarrow> (this', Inl e))"

definition hashPieces :: "string list \<Rightarrow> ChessHasher \<Rightarrow> Hash \<Rightarrow> string \<Rightarrow> ChessHasher \<times> (exn + Hash)" where
  "hashPieces hashes this arr str =
     (let ranks = splitStr (CHR ''/'') str in
      if length ranks \<noteq> 8 then (this\<lparr>error := True\<rparr>, Inr arr)
      else ranksLoop hashes this arr 0 ranks)"

subsection \<open>\<open>hashPosition\<close>\<close>

text \<open>
  The test of \<open>validFenPattern\<close>,
  \<^verbatim>\<open>/^([rnbqkpRNBQKP1-8]+\/){7}[rnbqkpRNBQKP1-8]+ [wb] [KQkq-]{1,4} [a-h1-8-]{1,2} \d+ \d+$/\<close>.
  No character class of the pattern holds a space, and the first one holds no slash, so a
  string matches exactly when it has six fields between single spaces, the first of them
  eight non-empty groups between slashes, each field made of the characters of its class
  in the number the pattern allows.
\<close>

definition boardChar :: "char \<Rightarrow> bool" where
  "boardChar c = (c \<in> set ''rnbqkpRNBQKP12345678'')"

definition castlingChar :: "char \<Rightarrow> bool" where
  "castlingChar c = (c \<in> set ''KQkq-'')"

definition enPassantChar :: "char \<Rightarrow> bool" where
  "enPassantChar c = (c \<in> set ''abcdefgh12345678-'')"

definition digitChar :: "char \<Rightarrow> bool" where
  "digitChar c = (c \<in> set ''0123456789'')"

definition piecesField :: "string \<Rightarrow> bool" where
  "piecesField s =
     (let groups = splitStr (CHR ''/'') s in
      length groups = 8 \<and> list_all (\<lambda>g. g \<noteq> [] \<and> list_all boardChar g) groups)"

definition colorField :: "string \<Rightarrow> bool" where
  "colorField s = (s = ''w'' \<or> s = ''b'')"

definition castlingField :: "string \<Rightarrow> bool" where
  "castlingField s = (1 \<le> length s \<and> length s \<le> 4 \<and> list_all castlingChar s)"

definition enPassantField :: "string \<Rightarrow> bool" where
  "enPassantField s = (1 \<le> length s \<and> length s \<le> 2 \<and> list_all enPassantChar s)"

definition numberField :: "string \<Rightarrow> bool" where
  "numberField s = (s \<noteq> [] \<and> list_all digitChar s)"

definition validFenPattern :: "string \<Rightarrow> bool" where
  "validFenPattern fen =
     (let fields = splitStr (CHR '' '') fen in
      length fields = 6
      \<and> piecesField (fields ! 0) \<and> colorField (fields ! 1) \<and> castlingField (fields ! 2)
      \<and> enPassantField (fields ! 3) \<and> numberField (fields ! 4) \<and> numberField (fields ! 5))"

text \<open>
  An element of the destructuring \<open>[pieces, color, castling, enPassant, ..._rest]\<close>:
  \<open>undefined\<close> (here \<open>None\<close>) past the end of the array.
\<close>

definition element :: "string list \<Rightarrow> nat \<Rightarrow> string option" where
  "element xs i = (if i < length xs then Some (xs ! i) else None)"

text \<open>\<open>!s\<close>: true for \<open>undefined\<close> and for the empty string.\<close>

definition falsy :: "string option \<Rightarrow> bool" where
  "falsy s = (case s of None \<Rightarrow> True | Some str \<Rightarrow> str = [])"

definition text_of :: "string option \<Rightarrow> string" where
  "text_of s = (case s of None \<Rightarrow> [] | Some str \<Rightarrow> str)"

definition hashPosition :: "string list \<Rightarrow> ChessHasher \<Rightarrow> string \<Rightarrow> ChessHasher \<times> (exn + string)" where
  "hashPosition hashes this0 fen =
     (let this1 = this0\<lparr>error := False, enPasRank := - 1, enPasFile := - 1, pawnNearby := False\<rparr> in
      if \<not> validFenPattern fen then (this1, Inr ''Wrong position'')
      else
        let fields = splitStr (CHR '' '') (trim fen);
            pieces = element fields 0;
            color = element fields 1;
            castling = element fields 2;
            enPassant = element fields 3
        in if falsy pieces \<or> falsy color \<or> falsy castling \<or> falsy enPassant
           then (this1\<lparr>error := True\<rparr>, Inr ''Wrong position'')
           else
             let this2 = parseEnPassant this1 (text_of enPassant) in
             (case hashPieces hashes this2 emptyHash (text_of pieces) of
                (this3, Inl e) \<Rightarrow> (this3, Inl e)
              | (this3, Inr hash1) \<Rightarrow>
                  (this3,
                   andThen (if pawnNearby this3 then xorHash hashes hash1 (772 + enPasFile this3)
                            else Inr hash1) (\<lambda>hash2.
                   andThen (hashSide hashes hash2 (text_of color)) (\<lambda>hash3.
                   andThen (hashCastling hashes hash3 (text_of castling)) (\<lambda>hash4.
                   Inr (if error this3 then ''Wrong position'' else createHexString hash4)))))))"

subsection \<open>Notions used to state the properties\<close>

text \<open>A FEN string written from its six fields.\<close>

definition fenOf :: "string \<Rightarrow> string \<Rightarrow> string \<Rightarrow> string \<Rightarrow> string \<Rightarrow> string \<Rightarrow> string" where
  "fenOf pieces color castling enPassant halfmove fullmove =
     pieces @ '' '' @ color @ '' '' @ castling @ '' '' @ enPassant @ '' '' @ halfmove
       @ '' '' @ fullmove"

text \<open>
  The kind index of a piece letter, in the order of the table: black pawn, white pawn,
  black knight, white knight, black bishop, white bishop, black rook, white rook, black
  queen, white queen, black king, white king.
\<close>

definition kindIndex :: "char \<Rightarrow> int option" where
  "kindIndex =
     map_of [(CHR ''p'', 0), (CHR ''P'', 1), (CHR ''n'', 2), (CHR ''N'', 3), (CHR ''b'', 4),
             (CHR ''B'', 5), (CHR ''r'', 6), (CHR ''R'', 7), (CHR ''q'', 8), (CHR ''Q'', 9),
             (CHR ''k'', 10), (CHR ''K'', 11)]"

text \<open>The number of empty squares a digit stands for.\<close>

definition emptySquares :: "char \<Rightarrow> int option" where
  "emptySquares c = (if digitChar c then Some (of_char c - 48) else None)"

text \<open>
  The piece letters of one rank group, left to right, each as the pair of the file
  counter at which it is met and its kind index. The counter starts at \<open>f\<close>, a piece
  letter advances it by one, a digit by its value.
\<close>

fun rowPieces :: "int \<Rightarrow> string \<Rightarrow> (int \<times> int) list" where
  "rowPieces f [] = []"
| "rowPieces f (c # cs) =
     (case kindIndex c of
        Some k \<Rightarrow> (f, k) # rowPieces (f + 1) cs
      | None \<Rightarrow> (case emptySquares c of Some d \<Rightarrow> rowPieces (f + d) cs | None \<Rightarrow> []))"

text \<open>
  The table index of a piece met in FEN row \<open>i\<close> (0 is the first group as written):
  \<open>kindIndex * 64 + (7 - i) * 8 + file\<close>.
\<close>

definition tableIndex :: "int \<Rightarrow> int \<times> int \<Rightarrow> int" where
  "tableIndex i = (\<lambda>(f, k). k * 64 + (7 - i) * 8 + f)"

text \<open>The indices of all pieces of the rank groups \<open>rows\<close>, the first of which is row \<open>i\<close>.\<close>

fun boardIndices :: "int \<Rightarrow> string list \<Rightarrow> int list" where
  "boardIndices i [] = []"
| "boardIndices i (r # rs) = map (tableIndex i) (rowPieces 0 r) @ boardIndices (i + 1) rs"

text \<open>One XOR of the table entry \<open>n\<close> into a hash.\<close>

definition xorTable :: "string list \<Rightarrow> Hash \<Rightarrow> int \<Rightarrow> Hash" where
  "xorTable hashes arr n = xorArrays arr (parseHexString (hashes ! nat n))"

text \<open>The indices of the side to move and of the castling rights.\<close>

definition sideIndices :: "string \<Rightarrow> int list" where
  "sideIndices color = (if color = ''w'' then [780] else [])"

definition castlingIndices :: "string \<Rightarrow> int list" where
  "castlingIndices castling =
     (if castling = ''-'' then []
      else (if CHR ''K'' \<in> set castling then [768] else [])
         @ (if CHR ''Q'' \<in> set castling then [769] else [])
         @ (if CHR ''k'' \<in> set castling then [770] else [])
         @ (if CHR ''q'' \<in> set castling then [771] else []))"

text \<open>
  A pawn of kind \<open>k\<close> stands on a file next to the file \<open>epFile\<close>, among the pieces
  \<open>pcs\<close> of a rank.
\<close>

definition pawnBeside :: "int \<Rightarrow> (int \<times> int) list \<Rightarrow> int \<Rightarrow> bool" where
  "pawnBeside k pcs epFile = ((epFile - 1, k) \<in> set pcs \<or> (epFile + 1, k) \<in> set pcs)"

text \<open>
  A capturing pawn is adjacent to the en-passant target: for a target on rank 2 a black
  pawn on board rank 3 (the fifth rank group), for a target on rank 5 a white pawn on
  board rank 4 (the fourth rank group), on a file next to the target's.
\<close>

definition adjacentPawn :: "string list \<Rightarrow> int \<Rightarrow> int \<Rightarrow> bool" where
  "adjacentPawn rows epRank epFile =
     ((epRank = 2 \<and> pawnBeside 0 (rowPieces 0 (rows ! 4)) epFile)
      \<or> (epRank = 5 \<and> pawnBeside 1 (rowPieces 0 (rows ! 3)) epFile))"

text \<open>
  The target an en-passant field declares, as the pair of its rank and its file, both
  counted from 0: a file letter \<open>a\<close> .. \<open>h\<close> followed by a rank digit \<open>1\<close> .. \<open>8\<close>.
  Any other field declares none.
\<close>

definition fileOf :: "char \<Rightarrow> int option" where
  "fileOf =
     map_of [(CHR ''a'', 0), (CHR ''b'', 1), (CHR ''c'', 2), (CHR ''d'', 3), (CHR ''e'', 4),
             (CHR ''f'', 5), (CHR ''g'', 6), (CHR ''h'', 7)]"

definition rankOf :: "char \<Rightarrow> int option" where
  "rankOf =
     map_of [(CHR ''1'', 0), (CHR ''2'', 1), (CHR ''3'', 2), (CHR ''4'', 3), (CHR ''5'', 4),
             (CHR ''6'', 5), (CHR ''7'', 6), (CHR ''8'', 7)]"

definition declaredTarget :: "string \<Rightarrow> (int \<times> int) option" where
  "declaredTarget e =
     (case e of
        [ef, er] \<Rightarrow>
          (case rankOf er of
             None \<Rightarrow> None
           | Some r \<Rightarrow> (case fileOf ef of None \<Rightarrow> None | Some f \<Rightarrow> Some (r, f)))
      | _ \<Rightarrow> None)"

text \<open>
  The en-passant indices of a board and an en-passant field: the index \<open>772 + file\<close> of
  the declared target when a capturing pawn is adjacent to it, none otherwise.
\<close>

definition targetIndices :: "string list \<Rightarrow> string \<Rightarrow> int list" where
  "targetIndices rows e =
     (case declaredTarget e of
        None \<Rightarrow> []
      | Some (r, f) \<Rightarrow> if adjacentPawn rows r f then [772 + f] else [])"

text \<open>The en-passant index, read off the instance after the board has been decoded.\<close>

definition enPassantIndices :: "ChessHasher \<Rightarrow> int list" where
  "enPassantIndices this = (if pawnNearby this then [772 + enPasFile this] else [])"

text \<open>A table entry of the documented shape: sixteen hexadecimal digits.\<close>

definition hexEntry :: "string \<Rightarrow> bool" where
  "hexEntry s = (length s = 16 \<and> list_all isHexDigit s)"

subsection \<open>Auxiliary notions of the proofs\<close>

text \<open>The two adjacency tests of the cases \<open>"p"\<close> and \<open>"P"\<close>, for a piece of a rank.\<close>

definition nearTest :: "int \<Rightarrow> int \<Rightarrow> int \<Rightarrow> int \<times> int \<Rightarrow> bool" where
  "nearTest epRank epFile rank =
     (\<lambda>(f, k). ((k = 0 \<and> epRank = 2 \<and> rank = 3) \<or> (k = 1 \<and> epRank = 5 \<and> rank = 4))
               \<and> ((0 < epFile \<and> f = epFile - 1) \<or> (epFile < 7 \<and> f = epFile + 1)))"

fun boardNear :: "int \<Rightarrow> int \<Rightarrow> int \<Rightarrow> string list \<Rightarrow> bool" where
  "boardNear epRank epFile i [] = False"
| "boardNear epRank epFile i (r # rs) =
     (list_ex (nearTest epRank epFile (7 - i)) (rowPieces 0 r) \<or> boardNear epRank epFile (i + 1) rs)"

definition markNearby :: "ChessHasher \<Rightarrow> bool \<Rightarrow> ChessHasher" where
  "markNearby this b = (if b then this\<lparr>pawnNearby := True\<rparr> else this)"

text \<open>The number a list of bytes denotes, the first byte the most significant, from \<open>n\<close> on.\<close>

definition bytesNumber :: "int \<Rightarrow> Hash \<Rightarrow> int" where
  "bytesNumber n h = foldl (\<lambda>n x. 256 * n + toInt32 x) n h"

text \<open>The number a string of hexadecimal digits denotes, from \<open>n\<close> on.\<close>

definition digitsNumber :: "int \<Rightarrow> string \<Rightarrow> int" where
  "digitsNumber n s =
     foldl (\<lambda>n c. 16 * n + (case hexDigitValue c of Some d \<Rightarrow> d | None \<Rightarrow> 0)) n s"

text \<open>A byte, and a hash of eight bytes.\<close>

definition isByte :: "number \<Rightarrow> bool" where
  "isByte x = (case x of NaN \<Rightarrow> False | Num n \<Rightarrow> 0 \<le> n \<and> n < 256)"

definition wfHash :: "Hash \<Rightarrow> bool" where
  "wfHash h = (length h = 8 \<and> list_all isByte h)"

text \<open>The characters the \<open>switch\<close> of \<open>hashPieces\<close> has a case for.\<close>

definition recognized :: "char \<Rightarrow> bool" where
  "recognized c = (c \<in> set ''pPnNbBrRqQkK012345678'')"

text \<open>
  Modelled from the spec: the table of constants \<open>polyglot_hashes\<close> of hashes.ts is not
  among the sources. Where the functions are run on a concrete input, this table of the
  documented shape stands in for it: 781 strings of 16 hexadecimal digits. Entry \<open>i\<close>
  holds the number \<open>i + 1\<close>, but for the last one, which holds the constant that the
  repository's tests show for the side to move.
\<close>

definition sampleEntry :: "nat \<Rightarrow> string" where
  "sampleEntry i =
     createHexString (map Num [0, 0, 0, 0, 0, 0, int ((i + 1) div 256), int ((i + 1) mod 256)])"

definition sampleTable :: "string list" where
  "sampleTable = map sampleEntry [0..<780] @ [''f8d626aaaf278509'']"


section \<open>Running the functions on concrete inputs\<close>

lemma length_sampleTable: "length sampleTable = 781"
  by (simp add: sampleTable_def)

lemma nth_sampleTable: "i < 780 \<Longrightarrow> sampleTable ! i = sampleEntry i"
  by (simp add: sampleTable_def nth_append)

lemma last_sampleTable: "sampleTable ! 780 = ''f8d626aaaf278509''"
  by (simp add: sampleTable_def nth_append)

lemmas run =
  validFenPattern_def piecesField_def colorField_def castlingField_def enPassantField_def
  numberField_def boardChar_def castlingChar_def enPassantChar_def digitChar_def
  hashPosition_def trim_def isWhiteSpace_def element_def falsy_def text_of_def
  parseEnPassant_def hashPieces_def switchChar_def pawnCase_def pieceCase_def xorHash_def
  length_sampleTable nth_sampleTable last_sampleTable sampleEntry_def
  createHexString_def padStart2_def toString16_def hexDigits.simps hexChar_def
  emptyHash_def parseInt16_def isHexDigit_def hexDigitValue_def hexValue_def
  xorArrays_def jsXor_def toInt32_def andThen_def hashSide_def hashCastling_def
  newChessHasher_def

section \<open>No state leaks from one call into the next\<close>

text \<open>
  C6. \<open>hashPosition\<close> is a function of the table and the FEN string alone: it resets the
  four instance fields before it reads any of them, so the state an earlier call left
  in the instance changes neither the value returned nor the state left behind.
\<close>

theorem hashPosition_instance_independent:
  "hashPosition hashes this fen = hashPosition hashes that fen"
proof -
  have reset:
    "this\<lparr>error := False, enPasRank := - 1, enPasFile := - 1, pawnNearby := False\<rparr>
       = that\<lparr>error := False, enPasRank := - 1, enPasFile := - 1, pawnNearby := False\<rparr>"
    by (cases this, cases that) simp
  show ?thesis
    unfolding hashPosition_def by (simp only: reset)
qed

section \<open>A rank wider than the board: the read outside the table\<close>

text \<open>
  C2. With a table of 781 entries, \<open>hashPosition\<close> does not return on the FEN string
  \<open>888K/8/8/8/8/8/8/8 w - - 0 1\<close>: the pattern accepts it, the king is met with the file
  counter at 24, and the read of entry 784 raises a TypeError before the test
  \<open>file != 8\<close> is reached.
\<close>

theorem hashPosition_raises:
  "length hashes = 781 \<Longrightarrow>
     snd (hashPosition hashes this ''888K/8/8/8/8/8/8/8 w - - 0 1'') = Inl TypeError"
  by (simp add: run)

theorem hashPosition_raises_witness:
  "length sampleTable = 781
     \<and> snd (hashPosition sampleTable newChessHasher ''888K/8/8/8/8/8/8/8 w - - 0 1'') = Inl TypeError"
  using hashPosition_raises [of sampleTable newChessHasher] by (simp add: length_sampleTable)

text \<open>
  C4. The second rank group of \<open>8/8888K/8/8/8/8/8/8 w - - 0 1\<close> sums to 33 files, and
  \<open>hashPosition\<close> does not return the sentinel: it raises.
\<close>

theorem hashPosition_wide_rank_no_sentinel:
  "length hashes = 781 \<Longrightarrow>
     snd (hashPosition hashes this ''8/8888K/8/8/8/8/8/8 w - - 0 1'') \<noteq> Inr ''Wrong position''"
  by (simp add: run)

theorem hashPosition_wide_rank_no_sentinel_witness:
  "length sampleTable = 781
     \<and> snd (hashPosition sampleTable newChessHasher ''8/8888K/8/8/8/8/8/8 w - - 0 1'')
         \<noteq> Inr ''Wrong position''"
  using hashPosition_wide_rank_no_sentinel [of sampleTable newChessHasher]
  by (simp add: length_sampleTable)

text \<open>
  C10. Decoding the rank \<open>888K\<close> of board rank 7 asks \<open>xorHash\<close> for entry
  \<open>64 * 11 + 8 * 7 + 24 = 784\<close>, outside a table of 781 entries, and so does
  \<open>hashPosition\<close> on a FEN string that the pattern accepts.
\<close>

theorem index_out_of_table:
  "length hashes = 781 \<Longrightarrow>
     switchChar hashes 7 this arr 24 (CHR ''K'') = pieceCase hashes this arr 784 24
     \<and> xorHash hashes arr 784 = Inl TypeError
     \<and> rankLoop hashes 7 this arr 0 ''888K'' = (this, Throw TypeError)
     \<and> snd (hashPosition hashes this ''888K/8/8/8/8/8/8/8 b - - 0 1'') = Inl TypeError"
  by (simp add: run)

theorem index_out_of_table_witness:
  "length sampleTable = 781
     \<and> xorHash sampleTable emptyHash 784 = Inl TypeError
     \<and> rankLoop sampleTable 7 newChessHasher emptyHash 0 ''888K'' = (newChessHasher, Throw TypeError)"
  using index_out_of_table [of sampleTable newChessHasher emptyHash]
  by (simp add: length_sampleTable)

section \<open>Fields of a FEN string and the pattern\<close>

lemma splitStr_not_Nil: "splitStr sep s \<noteq> []"
  by (induction s) (auto split: list.splits)

lemma splitStr_Cons_other:
  "x \<noteq> sep \<Longrightarrow> splitStr sep s = r # rs \<Longrightarrow> splitStr sep (x # s) = (x # r) # rs"
  by simp

lemma splitStr_append_sep: "splitStr sep (a @ sep # b) = splitStr sep a @ splitStr sep b"
proof (induction a)
  case Nil
  show ?case by simp
next
  case (Cons x a)
  show ?case
  proof (cases "x = sep")
    case True
    with Cons.IH show ?thesis by simp
  next
    case False
    obtain r rs where r: "splitStr sep a = r # rs"
      using splitStr_not_Nil [of sep a] by (cases "splitStr sep a") auto
    with Cons.IH have "splitStr sep (a @ sep # b) = r # (rs @ splitStr sep b)" by simp
    from splitStr_Cons_other [OF False this] splitStr_Cons_other [OF False r]
    show ?thesis by simp
  qed
qed

lemma splitStr_no_sep: "sep \<notin> set a \<Longrightarrow> splitStr sep a = [a]"
  by (induction a) auto

lemma length_splitStr: "length (splitStr sep s) = Suc (length (filter (\<lambda>c. c = sep) s))"
proof (induction s)
  case Nil
  show ?case by simp
next
  case (Cons x s)
  show ?case
  proof (cases "x = sep")
    case True
    with Cons.IH show ?thesis by simp
  next
    case False
    obtain r rs where r: "splitStr sep s = r # rs"
      using splitStr_not_Nil [of sep s] by (cases "splitStr sep s") auto
    from splitStr_Cons_other [OF False r] Cons.IH r False show ?thesis by simp
  qed
qed


lemma in_splitStr:
  "x \<in> set s \<Longrightarrow> x \<noteq> sep \<Longrightarrow> \<exists>g \<in> set (splitStr sep s). x \<in> set g"
proof (induction s)
  case Nil
  then show ?case by simp
next
  case (Cons a s)
  obtain r rs where r: "splitStr sep s = r # rs"
    using splitStr_not_Nil [of sep s] by (cases "splitStr sep s") auto
  show ?case
  proof (cases "x = a")
    case True
    with Cons.prems r show ?thesis by simp
  next
    case False
    with Cons.prems have "x \<in> set s" by simp
    from Cons.IH [OF this Cons.prems(2)] r have "x \<in> set r \<or> (\<exists>g \<in> set rs. x \<in> set g)"
      by simp
    with r show ?thesis by auto
  qed
qed

lemma splitStr_fenOf:
  "splitStr (CHR '' '') (fenOf p c k e h f) =
     splitStr (CHR '' '') p @ splitStr (CHR '' '') c @ splitStr (CHR '' '') k
     @ splitStr (CHR '' '') e @ splitStr (CHR '' '') h @ splitStr (CHR '' '') f"
proof -
  have "fenOf p c k e h f = p @ CHR '' '' # (c @ CHR '' '' # (k @ CHR '' '' # (e @ CHR '' '' # (h @ CHR '' '' # f))))"
    by (simp add: fenOf_def)
  then show ?thesis by (simp only: splitStr_append_sep)
qed

lemma fields_fenOf:
  assumes "CHR '' '' \<notin> set p" "CHR '' '' \<notin> set c" "CHR '' '' \<notin> set k"
    "CHR '' '' \<notin> set e" "CHR '' '' \<notin> set h" "CHR '' '' \<notin> set f"
  shows "splitStr (CHR '' '') (fenOf p c k e h f) = [p, c, k, e, h, f]"
  using assms by (simp add: splitStr_fenOf splitStr_no_sep)

lemma no_sep_iff: "length (filter (\<lambda>c. c = sep) s) = 0 \<longleftrightarrow> sep \<notin> set s"
  by (auto simp: filter_empty_conv)

lemma six_fields_no_space:
  assumes "length (splitStr (CHR '' '') (fenOf p c k e h f)) = 6"
  shows "CHR '' '' \<notin> set p \<and> CHR '' '' \<notin> set c \<and> CHR '' '' \<notin> set k
    \<and> CHR '' '' \<notin> set e \<and> CHR '' '' \<notin> set h \<and> CHR '' '' \<notin> set f"
proof -
  let ?n = "\<lambda>s. length (filter (\<lambda>c. c = CHR '' '') s)"
  from assms have "Suc (?n p) + Suc (?n c) + Suc (?n k) + Suc (?n e) + Suc (?n h) + Suc (?n f) = 6"
    by (simp only: splitStr_fenOf length_append length_splitStr add.assoc)
  then have "?n p = 0 \<and> ?n c = 0 \<and> ?n k = 0 \<and> ?n e = 0 \<and> ?n h = 0 \<and> ?n f = 0"
    by linarith
  then show ?thesis by (simp add: no_sep_iff del: length_0_conv)
qed

lemma piecesField_chars: "piecesField s \<Longrightarrow> x \<in> set s \<Longrightarrow> x = CHR ''/'' \<or> boardChar x"
proof -
  assume a: "piecesField s" "x \<in> set s"
  show ?thesis
  proof (cases "x = CHR ''/''")
    case False
    with a(2) obtain g where "g \<in> set (splitStr (CHR ''/'') s)" "x \<in> set g"
      using in_splitStr by blast
    with a(1) show ?thesis by (auto simp: piecesField_def Let_def list_all_iff)
  qed simp
qed

lemma piecesField_not_Nil: "piecesField s \<Longrightarrow> s \<noteq> []"
  by (auto simp: piecesField_def)

lemma space_in_no_class:
  "\<not> boardChar (CHR '' '')" "\<not> castlingChar (CHR '' '')" "\<not> enPassantChar (CHR '' '')"
  "\<not> digitChar (CHR '' '')"
  by (simp_all add: boardChar_def castlingChar_def enPassantChar_def digitChar_def)

lemma piecesField_no_space: "piecesField s \<Longrightarrow> CHR '' '' \<notin> set s"
  using piecesField_chars [of s "CHR '' ''"] space_in_no_class(1) by auto

lemma colorField_no_space: "colorField s \<Longrightarrow> CHR '' '' \<notin> set s"
  by (auto simp: colorField_def)

lemma castlingField_no_space: "castlingField s \<Longrightarrow> CHR '' '' \<notin> set s"
  using space_in_no_class(2) by (auto simp: castlingField_def list_all_iff)

lemma enPassantField_no_space: "enPassantField s \<Longrightarrow> CHR '' '' \<notin> set s"
  using space_in_no_class(3) by (auto simp: enPassantField_def list_all_iff)

lemma numberField_no_space: "numberField s \<Longrightarrow> CHR '' '' \<notin> set s"
  using space_in_no_class(4) by (auto simp: numberField_def list_all_iff)

lemma validFenPattern_split:
  "splitStr (CHR '' '') fen = [p, c, k, e, h, f] \<Longrightarrow>
     validFenPattern fen \<longleftrightarrow>
       piecesField p \<and> colorField c \<and> castlingField k \<and> enPassantField e
       \<and> numberField h \<and> numberField f"
  by (simp add: validFenPattern_def)

lemma validFenPattern_length:
  "validFenPattern fen \<Longrightarrow> length (splitStr (CHR '' '') fen) = 6"
  by (simp add: validFenPattern_def Let_def)

lemma validFenPattern_fenOf:
  "validFenPattern (fenOf p c k e h f) \<longleftrightarrow>
     piecesField p \<and> colorField c \<and> castlingField k \<and> enPassantField e
     \<and> numberField h \<and> numberField f"
proof
  assume v: "validFenPattern (fenOf p c k e h f)"
  from six_fields_no_space [OF validFenPattern_length [OF v]]
  have "splitStr (CHR '' '') (fenOf p c k e h f) = [p, c, k, e, h, f]"
    by (intro fields_fenOf) simp_all
  from validFenPattern_split [OF this] v
  show "piecesField p \<and> colorField c \<and> castlingField k \<and> enPassantField e
     \<and> numberField h \<and> numberField f"
    by simp
next
  assume ok: "piecesField p \<and> colorField c \<and> castlingField k \<and> enPassantField e
     \<and> numberField h \<and> numberField f"
  then have "splitStr (CHR '' '') (fenOf p c k e h f) = [p, c, k, e, h, f]"
    by (intro fields_fenOf)
      (simp_all add: piecesField_no_space colorField_no_space castlingField_no_space
        enPassantField_no_space numberField_no_space)
  from validFenPattern_split [OF this] ok show "validFenPattern (fenOf p c k e h f)"
    by simp
qed




lemma trim_id: "s \<noteq> [] \<Longrightarrow> \<not> isWhiteSpace (hd s) \<Longrightarrow> \<not> isWhiteSpace (last s) \<Longrightarrow> trim s = s"
proof -
  assume a: "s \<noteq> []" "\<not> isWhiteSpace (hd s)" "\<not> isWhiteSpace (last s)"
  then have 1: "dropWhile isWhiteSpace s = s" by (cases s) simp_all
  from a have "rev s \<noteq> []" "\<not> isWhiteSpace (hd (rev s))" by (simp_all add: hd_rev)
  then have 2: "dropWhile isWhiteSpace (rev s) = rev s" by (cases "rev s") simp_all
  show ?thesis by (simp add: trim_def 1 2)
qed

lemma boardChar_not_space: "boardChar x \<Longrightarrow> \<not> isWhiteSpace x"
  unfolding boardChar_def by (simp, elim disjE) (simp_all add: isWhiteSpace_def)

lemma digitChar_not_space: "digitChar x \<Longrightarrow> \<not> isWhiteSpace x"
  unfolding digitChar_def by (simp, elim disjE) (simp_all add: isWhiteSpace_def)

lemma slash_not_space: "\<not> isWhiteSpace (CHR ''/'')"
  by (simp add: isWhiteSpace_def)

lemma trim_fenOf:
  assumes "piecesField p" "numberField f"
  shows "trim (fenOf p c k e h f) = fenOf p c k e h f"
proof (rule trim_id)
  from assms(1) have p: "p \<noteq> []" by (rule piecesField_not_Nil)
  then show "fenOf p c k e h f \<noteq> []" by (simp add: fenOf_def)
  from p have "hd (fenOf p c k e h f) = hd p" by (simp add: fenOf_def)
  moreover from p have "hd p \<in> set p" by simp
  then have "\<not> isWhiteSpace (hd p)"
    using piecesField_chars [OF assms(1)] boardChar_not_space slash_not_space by metis
  ultimately show "\<not> isWhiteSpace (hd (fenOf p c k e h f))" by simp
  from assms(2) have f: "f \<noteq> []" "digitChar (last f)"
    by (auto simp: numberField_def list_all_iff)
  then have "last (fenOf p c k e h f) = last f" by (simp add: fenOf_def)
  with f show "\<not> isWhiteSpace (last (fenOf p c k e h f))"
    by (simp add: digitChar_not_space)
qed


lemma fields_not_Nil:
  "colorField c \<Longrightarrow> c \<noteq> []" "castlingField k \<Longrightarrow> k \<noteq> []" "enPassantField e \<Longrightarrow> e \<noteq> []"
  by (auto simp: colorField_def castlingField_def enPassantField_def)

lemma hashPosition_invalid:
  "\<not> validFenPattern fen \<Longrightarrow> snd (hashPosition hashes this fen) = Inr ''Wrong position''"
  by (simp add: hashPosition_def)

lemma hashPosition_fields:
  assumes "piecesField p" "colorField c" "castlingField k" "enPassantField e"
    "numberField h" "numberField f"
  shows "hashPosition hashes this (fenOf p c k e h f) =
    (case hashPieces hashes
            (parseEnPassant (this\<lparr>error := False, enPasRank := - 1, enPasFile := - 1,
               pawnNearby := False\<rparr>) e) emptyHash p of
       (this3, Inl x) \<Rightarrow> (this3, Inl x)
     | (this3, Inr hash1) \<Rightarrow>
         (this3,
          andThen (if pawnNearby this3 then xorHash hashes hash1 (772 + enPasFile this3)
                   else Inr hash1) (\<lambda>hash2.
          andThen (hashSide hashes hash2 c) (\<lambda>hash3.
          andThen (hashCastling hashes hash3 k) (\<lambda>hash4.
          Inr (if error this3 then ''Wrong position'' else createHexString hash4))))))"
proof -
  from assms have v: "validFenPattern (fenOf p c k e h f)"
    by (simp add: validFenPattern_fenOf)
  from assms have t: "trim (fenOf p c k e h f) = fenOf p c k e h f"
    by (simp add: trim_fenOf)
  from assms have s: "splitStr (CHR '' '') (fenOf p c k e h f) = [p, c, k, e, h, f]"
    by (intro fields_fenOf)
      (simp_all add: piecesField_no_space colorField_no_space castlingField_no_space
        enPassantField_no_space numberField_no_space)
  from assms have n: "p \<noteq> []" "c \<noteq> []" "k \<noteq> []" "e \<noteq> []"
    by (simp_all add: piecesField_not_Nil fields_not_Nil)
  show ?thesis
    by (simp add: hashPosition_def v t s n element_def falsy_def text_of_def)
qed

text \<open>
  C7 (as amended). With the other five fields well-formed, the pattern accepts a
  castling field exactly when it is one to four characters, each of them one of \<open>K\<close>,
  \<open>Q\<close>, \<open>k\<close>, \<open>q\<close> and \<open>-\<close>; repetitions and mixtures of \<open>-\<close> with letters are accepted.
  Any other castling field is rejected, and \<open>hashPosition\<close> returns the sentinel.
\<close>

theorem castling_field_pattern:
  assumes "validFenPattern (fenOf p c k e h f)"
  shows "(validFenPattern (fenOf p c k' e h f) \<longleftrightarrow>
            1 \<le> length k' \<and> length k' \<le> 4
            \<and> set k' \<subseteq> {CHR ''K'', CHR ''Q'', CHR ''k'', CHR ''q'', CHR ''-''})
       \<and> (\<not> (1 \<le> length k' \<and> length k' \<le> 4
              \<and> set k' \<subseteq> {CHR ''K'', CHR ''Q'', CHR ''k'', CHR ''q'', CHR ''-''})
            \<longrightarrow> snd (hashPosition hashes this (fenOf p c k' e h f)) = Inr ''Wrong position'')"
proof -
  have c: "castlingField k' \<longleftrightarrow>
             1 \<le> length k' \<and> length k' \<le> 4
             \<and> set k' \<subseteq> {CHR ''K'', CHR ''Q'', CHR ''k'', CHR ''q'', CHR ''-''}"
    by (auto simp: castlingField_def castlingChar_def list_all_iff)
  from assms have "validFenPattern (fenOf p c k' e h f) \<longleftrightarrow> castlingField k'"
    by (simp add: validFenPattern_fenOf)
  then show ?thesis
    using hashPosition_invalid [of "fenOf p c k' e h f" hashes this] by (simp add: c)
qed

theorem castling_field_pattern_witness:
  "validFenPattern (fenOf ''8/8/8/8/8/8/8/8'' ''w'' ''-'' ''-'' ''0'' ''1'')
   \<and> validFenPattern (fenOf ''8/8/8/8/8/8/8/8'' ''w'' ''KK'' ''-'' ''0'' ''1'')
   \<and> \<not> validFenPattern (fenOf ''8/8/8/8/8/8/8/8'' ''w'' ''KQkqK'' ''-'' ''0'' ''1'')
   \<and> snd (hashPosition sampleTable newChessHasher
            (fenOf ''8/8/8/8/8/8/8/8'' ''w'' ''KQkqK'' ''-'' ''0'' ''1'')) = Inr ''Wrong position''"
proof -
  have v: "validFenPattern (fenOf ''8/8/8/8/8/8/8/8'' ''w'' ''-'' ''-'' ''0'' ''1'')"
    by (simp add: validFenPattern_fenOf piecesField_def colorField_def castlingField_def
        enPassantField_def numberField_def boardChar_def castlingChar_def enPassantChar_def
        digitChar_def)
  from castling_field_pattern [OF v, of "''KK''" sampleTable newChessHasher]
    castling_field_pattern [OF v, of "''KQkqK''" sampleTable newChessHasher] v
  show ?thesis by simp
qed

text \<open>
  C7 as stated fails: the castling fields \<open>KK\<close> and \<open>K-\<close> pass the pattern and the
  strings are hashed.
\<close>

theorem repeated_castling_letter_accepted:
  "validFenPattern ''8/8/8/8/8/8/8/8 w KK - 0 1''
   \<and> snd (hashPosition sampleTable newChessHasher ''8/8/8/8/8/8/8/8 w KK - 0 1'')
       = Inr ''f8d626aaaf278608''
   \<and> validFenPattern ''8/8/8/8/8/8/8/8 w K- - 0 1''
   \<and> snd (hashPosition sampleTable newChessHasher ''8/8/8/8/8/8/8/8 w K- - 0 1'')
       = Inr ''f8d626aaaf278608''"
  by (simp add: run)

section \<open>The loops of hashPieces\<close>

lemma kindIndex_letters:
  "kindIndex (CHR ''p'') = Some 0" "kindIndex (CHR ''P'') = Some 1"
  "kindIndex (CHR ''n'') = Some 2" "kindIndex (CHR ''N'') = Some 3"
  "kindIndex (CHR ''b'') = Some 4" "kindIndex (CHR ''B'') = Some 5"
  "kindIndex (CHR ''r'') = Some 6" "kindIndex (CHR ''R'') = Some 7"
  "kindIndex (CHR ''q'') = Some 8" "kindIndex (CHR ''Q'') = Some 9"
  "kindIndex (CHR ''k'') = Some 10" "kindIndex (CHR ''K'') = Some 11"
  by (simp_all add: kindIndex_def)

lemma kindIndex_SomeD:
  "kindIndex c = Some k \<Longrightarrow>
     (c, k) \<in> {(CHR ''p'', 0), (CHR ''P'', 1), (CHR ''n'', 2), (CHR ''N'', 3), (CHR ''b'', 4),
             (CHR ''B'', 5), (CHR ''r'', 6), (CHR ''R'', 7), (CHR ''q'', 8), (CHR ''Q'', 9),
             (CHR ''k'', 10), (CHR ''K'', 11)}"
  unfolding kindIndex_def by (drule map_of_SomeD) simp

lemma kindIndex_NoneD:
  "kindIndex c = None \<Longrightarrow> c \<notin> set ''pPnNbBrRqQkK''"
proof -
  assume "kindIndex c = None"
  then have "c \<notin> fst ` set [(CHR ''p'', 0::int), (CHR ''P'', 1), (CHR ''n'', 2), (CHR ''N'', 3),
      (CHR ''b'', 4), (CHR ''B'', 5), (CHR ''r'', 6), (CHR ''R'', 7), (CHR ''q'', 8),
      (CHR ''Q'', 9), (CHR ''k'', 10), (CHR ''K'', 11)]"
    unfolding kindIndex_def by (rule map_of_eq_None_iff [THEN iffD1])
  then show ?thesis by simp
qed

lemma kindIndex_digits:
  "c \<in> set ''0123456789'' \<Longrightarrow> kindIndex c = None"
  unfolding kindIndex_def by (simp, elim disjE) simp_all

lemma switchChar_letters:
  "switchChar hashes rank this arr file (CHR ''p'') = pawnCase hashes this arr (8 * rank + file) 2 3 rank file"
  "switchChar hashes rank this arr file (CHR ''P'') = pawnCase hashes this arr (64 * 1 + 8 * rank + file) 5 4 rank file"
  "switchChar hashes rank this arr file (CHR ''n'') = pieceCase hashes this arr (64 * 2 + 8 * rank + file) file"
  "switchChar hashes rank this arr file (CHR ''N'') = pieceCase hashes this arr (64 * 3 + 8 * rank + file) file"
  "switchChar hashes rank this arr file (CHR ''b'') = pieceCase hashes this arr (64 * 4 + 8 * rank + file) file"
  "switchChar hashes rank this arr file (CHR ''B'') = pieceCase hashes this arr (64 * 5 + 8 * rank + file) file"
  "switchChar hashes rank this arr file (CHR ''r'') = pieceCase hashes this arr (64 * 6 + 8 * rank + file) file"
  "switchChar hashes rank this arr file (CHR ''R'') = pieceCase hashes this arr (64 * 7 + 8 * rank + file) file"
  "switchChar hashes rank this arr file (CHR ''q'') = pieceCase hashes this arr (64 * 8 + 8 * rank + file) file"
  "switchChar hashes rank this arr file (CHR ''Q'') = pieceCase hashes this arr (64 * 9 + 8 * rank + file) file"
  "switchChar hashes rank this arr file (CHR ''k'') = pieceCase hashes this arr (64 * 10 + 8 * rank + file) file"
  "switchChar hashes rank this arr file (CHR ''K'') = pieceCase hashes this arr (64 * 11 + 8 * rank + file) file"
  by (simp_all add: switchChar_def)

lemma markNearby_simps:
  "error (markNearby this b) = error this"
  "enPasRank (markNearby this b) = enPasRank this"
  "enPasFile (markNearby this b) = enPasFile this"
  "pawnNearby (markNearby this b) = (pawnNearby this \<or> b)"
  "markNearby (markNearby this a) b = markNearby this (a \<or> b)"
  "markNearby this False = this"
  "(markNearby this b)\<lparr>error := True\<rparr> = markNearby (this\<lparr>error := True\<rparr>) b"
  by (simp_all add: markNearby_def)

lemma pieceCase_eq:
  "pieceCase hashes this arr num file =
     (if 0 \<le> num \<and> num < int (length hashes)
      then (this, Continue (xorTable hashes arr num) (file + 1))
      else (this, Throw TypeError))"
  by (simp add: pieceCase_def xorHash_def xorTable_def)

lemma pawnCase_eq:
  "pawnCase hashes this arr num epRank pawnRank rank file =
     (if 0 \<le> num \<and> num < int (length hashes)
      then (markNearby this (enPasRank this = epRank \<and> rank = pawnRank
              \<and> ((0 < enPasFile this \<and> file = enPasFile this - 1)
                   \<or> (enPasFile this < 7 \<and> file = enPasFile this + 1))),
            Continue (xorTable hashes arr num) (file + 1))
      else (this, Throw TypeError))"
proof (cases "0 \<le> num \<and> num < int (length hashes)")
  case False
  then have x: "xorHash hashes arr num = Inl TypeError"
    by (simp only: xorHash_def if_False)
  show ?thesis
    by (simp only: pawnCase_def x if_not_P [OF False] sum.case)
next
  case inside: True
  let ?A = "enPasRank this = epRank \<and> rank = pawnRank \<and> enPasFile this > 0
              \<and> file = enPasFile this - 1"
  let ?B = "enPasRank this = epRank \<and> rank = pawnRank \<and> enPasFile this < 7
              \<and> file = enPasFile this + 1"
  have x: "xorHash hashes arr num = Inr (xorTable hashes arr num)"
    using inside by (simp add: xorHash_def xorTable_def)
  have m: "markNearby this (enPasRank this = epRank \<and> rank = pawnRank
              \<and> ((0 < enPasFile this \<and> file = enPasFile this - 1)
                   \<or> (enPasFile this < 7 \<and> file = enPasFile this + 1)))
           = markNearby this (?A \<or> ?B)"
    by (rule arg_cong [where f = "markNearby this"]) blast
  show ?thesis
  proof (cases ?A)
    case a: True
    show ?thesis
    proof (cases ?B)
      case True
      with a inside show ?thesis
        unfolding m by (auto simp: pawnCase_def x markNearby_def)
    next
      case False
      with a inside show ?thesis
        unfolding m by (auto simp: pawnCase_def x markNearby_def)
    qed
  next
    case a: False
    show ?thesis
    proof (cases ?B)
      case True
      with a inside show ?thesis
        unfolding m by (auto simp: pawnCase_def x markNearby_def)
    next
      case False
      with a inside show ?thesis
        unfolding m by (auto simp: pawnCase_def x markNearby_def)
    qed
  qed
qed

text \<open>The \<open>switch\<close> on a piece letter.\<close>

lemma switchChar_piece:
  assumes "kindIndex c = Some k"
  shows "switchChar hashes rank this arr file c =
     (if 0 \<le> 64 * k + 8 * rank + file \<and> 64 * k + 8 * rank + file < int (length hashes)
      then (markNearby this (nearTest (enPasRank this) (enPasFile this) rank (file, k)),
            Continue (xorTable hashes arr (64 * k + 8 * rank + file)) (file + 1))
      else (this, Throw TypeError))"
  using kindIndex_SomeD [OF assms]
  by (simp, elim disjE)
    (simp_all add: switchChar_letters pieceCase_eq pawnCase_eq nearTest_def markNearby_simps)

lemma switchChar_digit:
  assumes "c \<in> set ''012345678''"
  shows "switchChar hashes rank this arr file c = (this, Continue arr (file + (of_char c - 48)))"
  using assms by (simp, elim disjE) (simp_all add: switchChar_def)

lemma switchChar_other:
  assumes "\<not> recognized c"
  shows "switchChar hashes rank this arr file c = (this\<lparr>error := True\<rparr>, Return arr)"
  using assms by (simp add: recognized_def switchChar_def)

lemma recognized_cases:
  "recognized c \<Longrightarrow> (\<exists>k. kindIndex c = Some k) \<or> c \<in> set ''012345678''"
  unfolding recognized_def by (simp, elim disjE) (simp_all add: kindIndex_letters)

lemma kindIndex_recognized: "kindIndex c = Some k \<Longrightarrow> recognized c"
  by (drule kindIndex_SomeD) (auto simp: recognized_def)

lemma digit_recognized: "c \<in> set ''012345678'' \<Longrightarrow> recognized c"
  by (simp add: recognized_def)

lemma emptySquares_digit:
  "c \<in> set ''012345678'' \<Longrightarrow> emptySquares c = Some (of_char c - 48)"
  by (simp add: emptySquares_def digitChar_def, elim disjE) simp_all

lemma rowPieces_piece: "kindIndex c = Some k \<Longrightarrow> rowPieces f (c # cs) = (f, k) # rowPieces (f + 1) cs"
  by simp

lemma rowPieces_digit:
  "c \<in> set ''012345678'' \<Longrightarrow> rowPieces f (c # cs) = rowPieces (f + (of_char c - 48)) cs"
proof -
  assume c: "c \<in> set ''012345678''"
  then have "c \<in> set ''0123456789''" by auto
  then have "kindIndex c = None" by (rule kindIndex_digits)
  with emptySquares_digit [OF c] show ?thesis by simp
qed


lemma digit_nonneg: "c \<in> set ''012345678'' \<Longrightarrow> (0::int) \<le> of_char c - 48"
  by (simp, elim disjE) simp_all

lemma char_cases:
  obtains (piece) k where "kindIndex c = Some k"
  | (digit) "c \<in> set ''012345678''"
  | (other) "\<not> recognized c"
  using recognized_cases by blast

text \<open>What one turn of the inner loop does to the error flag.\<close>

lemma switchChar_error:
  assumes "switchChar hashes rank this arr file c = (this', fl)"
  shows "(error this \<longrightarrow> error this') \<and> ((\<exists>a. fl = Return a) \<longrightarrow> error this')"
proof (cases c rule: char_cases)
  case (piece k)
  from assms show ?thesis
    unfolding switchChar_piece [OF piece]
    by (auto simp: markNearby_simps split: if_splits)
next
  case digit
  from assms show ?thesis
    unfolding switchChar_digit [OF digit] by auto
next
  case other
  from assms show ?thesis
    unfolding switchChar_other [OF other] by auto
qed

lemma rankLoop_error:
  "rankLoop hashes rank this arr file cs = (this', fl) \<Longrightarrow>
     (error this \<longrightarrow> error this') \<and> ((\<exists>a. fl = Return a) \<longrightarrow> error this')"
proof (induction cs arbitrary: this arr "file")
  case Nil
  then show ?case by auto
next
  case (Cons c cs)
  obtain this1 fl1 where s: "switchChar hashes rank this arr file c = (this1, fl1)"
    by (cases "switchChar hashes rank this arr file c") auto
  note e = switchChar_error [OF s]
  show ?case
  proof (cases fl1)
    case (Continue arr1 file1)
    with Cons.prems s have "rankLoop hashes rank this1 arr1 file1 cs = (this', fl)" by simp
    from Cons.IH [OF this] e show ?thesis by blast
  next
    case (Return a)
    with Cons.prems s e show ?thesis by auto
  next
    case (Throw x)
    with Cons.prems s e show ?thesis by auto
  qed
qed

text \<open>
  A rank decoded to its end: the accumulator, the file counter and the flag
  \<open>pawnNearby\<close>, from any instance state.
\<close>

lemma rankLoop_Continue:
  "rankLoop hashes rank this arr file cs = (this', Continue arr' file') \<Longrightarrow>
     rankLoop hashes rank that arr file cs =
       (markNearby that (list_ex (nearTest (enPasRank that) (enPasFile that) rank)
                           (rowPieces file cs)),
        Continue arr' file')
     \<and> arr' = foldl (xorTable hashes) arr
               (map (\<lambda>(f, k). 64 * k + 8 * rank + f) (rowPieces file cs))
     \<and> file \<le> file'
     \<and> (\<forall>(f, k) \<in> set (rowPieces file cs). file \<le> f \<and> f < file')
     \<and> list_all recognized cs"
proof (induction cs arbitrary: this that arr "file")
  case Nil
  then show ?case by (simp add: markNearby_simps)
next
  case (Cons c cs)
  show ?case
  proof (cases c rule: char_cases)
    case (piece k)
    let ?n = "64 * k + 8 * rank + file"
    show ?thesis
    proof (cases "0 \<le> ?n \<and> ?n < int (length hashes)")
      case False
      with Cons.prems show ?thesis
        by (simp add: switchChar_piece [OF piece])
    next
      case True
      let ?this1 = "markNearby this (nearTest (enPasRank this) (enPasFile this) rank (file, k))"
      let ?that1 = "markNearby that (nearTest (enPasRank that) (enPasFile that) rank (file, k))"
      from True Cons.prems
      have run: "rankLoop hashes rank ?this1 (xorTable hashes arr ?n) (file + 1) cs
                   = (this', Continue arr' file')"
        by (simp add: switchChar_piece [OF piece])
      note ih = Cons.IH [OF run, of ?that1]
      have step: "rankLoop hashes rank that arr file (c # cs)
                    = rankLoop hashes rank ?that1 (xorTable hashes arr ?n) (file + 1) cs"
        using True by (simp add: switchChar_piece [OF piece])
      have rp: "rowPieces file (c # cs) = (file, k) # rowPieces (file + 1) cs"
        using piece by simp
      from ih show ?thesis
        unfolding step rp using kindIndex_recognized [OF piece]
        by (auto simp: markNearby_simps)
    qed
  next
    case digit
    let ?d = "of_char c - 48 :: int"
    from Cons.prems
    have run: "rankLoop hashes rank this arr (file + ?d) cs = (this', Continue arr' file')"
      by (simp add: switchChar_digit [OF digit])
    note ih = Cons.IH [OF run, of that]
    have step: "rankLoop hashes rank that arr file (c # cs)
                  = rankLoop hashes rank that arr (file + ?d) cs"
      by (simp add: switchChar_digit [OF digit])
    from ih show ?thesis
      unfolding step rowPieces_digit [OF digit]
      using digit_nonneg [OF digit] digit_recognized [OF digit]
      by (simp only: list.pred_inject) fastforce
  next
    case other
    with Cons.prems show ?thesis
      by (simp add: switchChar_other [OF other])
  qed
qed




lemma ranksLoop_error:
  "ranksLoop hashes this arr i rs = (this', res) \<Longrightarrow> error this \<Longrightarrow> error this'"
proof (induction rs arbitrary: this arr i)
  case Nil
  then show ?case by simp
next
  case (Cons r rs)
  obtain this1 fl1 where s: "rankLoop hashes (7 - i) this arr 0 r = (this1, fl1)"
    by (cases "rankLoop hashes (7 - i) this arr 0 r") auto
  from rankLoop_error [OF s] Cons.prems(2) have e: "error this1" by simp
  show ?case
  proof (cases fl1)
    case (Continue arr1 file1)
    let ?this2 = "if file1 \<noteq> 8 then this1\<lparr>error := True\<rparr> else this1"
    from Cons.prems(1) s Continue
    have "ranksLoop hashes ?this2 arr1 (i + 1) rs = (this', res)" by simp
    moreover from e have "error ?this2" by simp
    ultimately show ?thesis by (rule Cons.IH)
  next
    case (Return a)
    with Cons.prems(1) s e show ?thesis by auto
  next
    case (Throw x)
    with Cons.prems(1) s e show ?thesis by auto
  qed
qed

lemma index_tableIndex: "(\<lambda>(f, k). 64 * k + 8 * (7 - i) + f) = tableIndex i"
  by (auto simp: tableIndex_def)

text \<open>
  A board decoded without the error flag: every rank was decoded to its end with the
  file counter at 8.
\<close>

lemma ranksLoop_accepted:
  "ranksLoop hashes this arr i rs = (this', Inr arr') \<Longrightarrow> \<not> error this' \<Longrightarrow>
     ranksLoop hashes that arr i rs =
       (markNearby that (boardNear (enPasRank that) (enPasFile that) i rs), Inr arr')
     \<and> arr' = foldl (xorTable hashes) arr (boardIndices i rs)
     \<and> (\<forall>r \<in> set rs. \<forall>(f, k) \<in> set (rowPieces 0 r). 0 \<le> f \<and> f < 8)
     \<and> list_all (list_all recognized) rs"
proof (induction rs arbitrary: this that arr i)
  case Nil
  then show ?case by (simp add: markNearby_simps)
next
  case (Cons r rs)
  obtain this1 fl1 where s: "rankLoop hashes (7 - i) this arr 0 r = (this1, fl1)"
    by (cases "rankLoop hashes (7 - i) this arr 0 r") auto
  show ?case
  proof (cases fl1)
    case (Continue arr1 file1)
    let ?this2 = "if file1 \<noteq> 8 then this1\<lparr>error := True\<rparr> else this1"
    from Cons.prems(1) s Continue
    have run: "ranksLoop hashes ?this2 arr1 (i + 1) rs = (this', Inr arr')" by simp
    have file1: "file1 = 8"
    proof (rule ccontr)
      assume "file1 \<noteq> 8"
      then have "error ?this2" by simp
      from ranksLoop_error [OF run this] Cons.prems(2) show False by simp
    qed
    with run have run1: "ranksLoop hashes this1 arr1 (i + 1) rs = (this', Inr arr')" by simp
    let ?that1 = "markNearby that (list_ex (nearTest (enPasRank that) (enPasFile that) (7 - i))
                                    (rowPieces 0 r))"
    from s Continue file1 have "rankLoop hashes (7 - i) this arr 0 r = (this1, Continue arr1 8)"
      by simp
    from rankLoop_Continue [OF this, of that, unfolded index_tableIndex]
    have row: "rankLoop hashes (7 - i) that arr 0 r = (?that1, Continue arr1 8)"
      and arr1: "arr1 = foldl (xorTable hashes) arr (map (tableIndex i) (rowPieces 0 r))"
      and files: "\<forall>(f, k) \<in> set (rowPieces 0 r). 0 \<le> f \<and> f < 8"
      and rec: "list_all recognized r"
      by simp_all
    note ih = Cons.IH [OF run1 Cons.prems(2), of ?that1]
    from row have step: "ranksLoop hashes that arr i (r # rs)
                           = ranksLoop hashes ?that1 arr1 (i + 1) rs"
      by simp
    from ih show ?thesis
      unfolding step using files rec
      by (simp add: markNearby_simps arr1)
  next
    case (Return a)
    from rankLoop_error [OF s] Return have "error this1" by simp
    with Cons.prems s Return show ?thesis by simp
  next
    case (Throw x)
    with Cons.prems(1) s show ?thesis by simp
  qed
qed




section \<open>An unrecognized character on the board\<close>










section \<open>The hash of an accepted FEN string\<close>

lemma andThen_Inr: "andThen x f = Inr r \<longleftrightarrow> (\<exists>y. x = Inr y \<and> f y = Inr r)"
  by (cases x) (simp_all add: andThen_def)

lemma xorHash_Inr:
  "xorHash hashes arr n = Inr arr' \<Longrightarrow> arr' = xorTable hashes arr n"
  by (simp add: xorHash_def xorTable_def split: if_splits)

lemma xorHash_inside:
  "0 \<le> n \<Longrightarrow> n < int (length hashes) \<Longrightarrow> xorHash hashes arr n = Inr (xorTable hashes arr n)"
  by (simp add: xorHash_def xorTable_def)

lemma optional_xor_Inr:
  "(if b then xorHash hashes arr n else Inr arr) = Inr arr' \<Longrightarrow>
     arr' = foldl (xorTable hashes) arr (if b then [n] else [])"
  by (cases b) (simp_all add: xorHash_Inr)

lemma hashSide_Inr:
  "hashSide hashes arr c = Inr arr' \<Longrightarrow> arr' = foldl (xorTable hashes) arr (sideIndices c)"
  unfolding hashSide_def sideIndices_def by (rule optional_xor_Inr)

lemma hashCastling_Inr:
  assumes "hashCastling hashes arr k = Inr arr'"
  shows "arr' = foldl (xorTable hashes) arr (castlingIndices k)"
proof (cases "k = ''-''")
  case True
  with assms show ?thesis by (simp add: hashCastling_def castlingIndices_def)
next
  case False
  with assms obtain a1 a2 a3 where
    "(if CHR ''K'' \<in> set k then xorHash hashes arr 768 else Inr arr) = Inr a1"
    "(if CHR ''Q'' \<in> set k then xorHash hashes a1 769 else Inr a1) = Inr a2"
    "(if CHR ''k'' \<in> set k then xorHash hashes a2 770 else Inr a2) = Inr a3"
    "(if CHR ''q'' \<in> set k then xorHash hashes a3 771 else Inr a3) = Inr arr'"
    unfolding hashCastling_def if_not_P [OF False] andThen_Inr by blast
  from this [THEN optional_xor_Inr] False show ?thesis
    by (simp only: castlingIndices_def if_False foldl_append)
qed

lemma xorHash_Inr_range:
  "xorHash hashes arr n = Inr arr' \<Longrightarrow> 0 \<le> n \<and> n < int (length hashes)"
  by (simp add: xorHash_def split: if_splits)

text \<open>A FEN string for which \<open>hashPosition\<close> returns a hash.\<close>

lemma hashPosition_fenOf_accepted:
  assumes res: "hashPosition hashes this (fenOf p c k e hm fm) = (this', Inr h)"
    and h: "h \<noteq> ''Wrong position''"
  shows "piecesField p \<and> colorField c \<and> castlingField k \<and> enPassantField e
           \<and> numberField hm \<and> numberField fm"
    and "\<not> error this'"
    and "length (splitStr (CHR ''/'') p) = 8"
    and "ranksLoop hashes
           (parseEnPassant (this\<lparr>error := False, enPasRank := - 1, enPasFile := - 1,
              pawnNearby := False\<rparr>) e) emptyHash 0 (splitStr (CHR ''/'') p)
         = (this', Inr (foldl (xorTable hashes) emptyHash (boardIndices 0 (splitStr (CHR ''/'') p))))"
    and "pawnNearby this' \<longrightarrow>
           0 \<le> 772 + enPasFile this' \<and> 772 + enPasFile this' < int (length hashes)"
    and "h = createHexString (foldl (xorTable hashes) emptyHash
           (boardIndices 0 (splitStr (CHR ''/'') p) @ enPassantIndices this'
            @ sideIndices c @ castlingIndices k))"
proof -
  let ?this2 = "parseEnPassant (this\<lparr>error := False, enPasRank := - 1, enPasFile := - 1,
          pawnNearby := False\<rparr>) e"
  from res h have v: "validFenPattern (fenOf p c k e hm fm)"
    using hashPosition_invalid [of "fenOf p c k e hm fm" hashes this] by auto
  then have f: "piecesField p" "colorField c" "castlingField k" "enPassantField e"
    "numberField hm" "numberField fm"
    by (simp_all add: validFenPattern_fenOf)
  then show "piecesField p \<and> colorField c \<and> castlingField k \<and> enPassantField e
           \<and> numberField hm \<and> numberField fm"
    by simp
  note eq = hashPosition_fields [OF f, of hashes this]
  obtain this3 r3 where hp: "hashPieces hashes ?this2 emptyHash p = (this3, r3)"
    by (cases "hashPieces hashes ?this2 emptyHash p") auto
  from res [unfolded eq hp] obtain hash1 where r3: "r3 = Inr hash1"
    by (cases r3) auto
  from res [unfolded eq hp r3, simplified prod.case sum.case]
  have this3: "this3 = this'"
    and chain: "andThen (if pawnNearby this3 then xorHash hashes hash1 (772 + enPasFile this3)
                   else Inr hash1) (\<lambda>hash2.
          andThen (hashSide hashes hash2 c) (\<lambda>hash3.
          andThen (hashCastling hashes hash3 k) (\<lambda>hash4.
          Inr (if error this3 then ''Wrong position'' else createHexString hash4)))) = Inr h"
    by blast+
  from chain obtain hash2 hash3 hash4 where
    h2: "(if pawnNearby this3 then xorHash hashes hash1 (772 + enPasFile this3) else Inr hash1)
           = Inr hash2"
    and h3: "hashSide hashes hash2 c = Inr hash3"
    and h4: "hashCastling hashes hash3 k = Inr hash4"
    and hh: "h = (if error this3 then ''Wrong position'' else createHexString hash4)"
    unfolding andThen_Inr by auto
  from hh h have ne: "\<not> error this3" and hex: "h = createHexString hash4"
    by (auto split: if_splits)
  from ne this3 show "\<not> error this'" by simp
  show len: "length (splitStr (CHR ''/'') p) = 8"
  proof (rule ccontr)
    assume "length (splitStr (CHR ''/'') p) \<noteq> 8"
    with hp have "this3 = ?this2\<lparr>error := True\<rparr>" by (simp add: hashPieces_def)
    with ne show False by simp
  qed
  with hp r3 have rl: "ranksLoop hashes ?this2 emptyHash 0 (splitStr (CHR ''/'') p)
                         = (this3, Inr hash1)"
    by (simp add: hashPieces_def)
  from ranksLoop_accepted [OF rl ne, of ?this2]
  have hash1: "hash1 = foldl (xorTable hashes) emptyHash (boardIndices 0 (splitStr (CHR ''/'') p))"
    by simp
  from rl hash1 this3
  show "ranksLoop hashes ?this2 emptyHash 0 (splitStr (CHR ''/'') p)
         = (this', Inr (foldl (xorTable hashes) emptyHash (boardIndices 0 (splitStr (CHR ''/'') p))))"
    by simp
  from h2 this3 xorHash_Inr_range [of hashes hash1 "772 + enPasFile this3" hash2]
  show "pawnNearby this' \<longrightarrow>
           0 \<le> 772 + enPasFile this' \<and> 772 + enPasFile this' < int (length hashes)"
    by (cases "pawnNearby this3") simp_all
  from optional_xor_Inr [OF h2]
  have hash2: "hash2 = foldl (xorTable hashes) hash1 (enPassantIndices this3)"
    by (simp add: enPassantIndices_def)
  from hex hash1 hash2 hashSide_Inr [OF h3] hashCastling_Inr [OF h4]
  have "h = createHexString (foldl (xorTable hashes) emptyHash
           (boardIndices 0 (splitStr (CHR ''/'') p) @ enPassantIndices this3
            @ sideIndices c @ castlingIndices k))"
    by (simp only: foldl_append)
  with this3 show "h = createHexString (foldl (xorTable hashes) emptyHash
           (boardIndices 0 (splitStr (CHR ''/'') p) @ enPassantIndices this'
            @ sideIndices c @ castlingIndices k))"
    by simp
qed



section \<open>En-passant adjacency\<close>

lemma near_row_3:
  assumes "\<forall>(f, k) \<in> set pcs. 0 \<le> f \<and> f < 8"
  shows "list_ex (nearTest epr epf 3) pcs = (epr = 2 \<and> pawnBeside 0 pcs epf)"
  using assms unfolding list_ex_iff nearTest_def pawnBeside_def by fastforce

lemma near_row_4:
  assumes "\<forall>(f, k) \<in> set pcs. 0 \<le> f \<and> f < 8"
  shows "list_ex (nearTest epr epf 4) pcs = (epr = 5 \<and> pawnBeside 1 pcs epf)"
  using assms unfolding list_ex_iff nearTest_def pawnBeside_def by fastforce

lemma near_row_other:
  "rank \<noteq> 3 \<Longrightarrow> rank \<noteq> 4 \<Longrightarrow> list_ex (nearTest epr epf rank) pcs = False"
  unfolding list_ex_iff nearTest_def by auto

lemma boardNear_no_target:
  "epr \<noteq> 2 \<Longrightarrow> epr \<noteq> 5 \<Longrightarrow> boardNear epr epf i rs = False"
  by (induction rs arbitrary: i) (auto simp: list_ex_iff nearTest_def)

lemma length_eight:
  assumes "length rs = 8"
  obtains r0 r1 r2 r3 r4 r5 r6 r7 where "rs = [r0, r1, r2, r3, r4, r5, r6, r7]"
proof -
  from assms obtain r0 t0 where 0: "rs = r0 # t0" "length t0 = 7" by (cases rs) auto
  then obtain r1 t1 where 1: "t0 = r1 # t1" "length t1 = 6" by (cases t0) auto
  then obtain r2 t2 where 2: "t1 = r2 # t2" "length t2 = 5" by (cases t1) auto
  then obtain r3 t3 where 3: "t2 = r3 # t3" "length t3 = 4" by (cases t2) auto
  then obtain r4 t4 where 4: "t3 = r4 # t4" "length t4 = 3" by (cases t3) auto
  then obtain r5 t5 where 5: "t4 = r5 # t5" "length t5 = 2" by (cases t4) auto
  then obtain r6 t6 where 6: "t5 = r6 # t6" "length t6 = 1" by (cases t5) auto
  then obtain r7 where 7: "t6 = [r7]" by (cases t6) auto
  from 0 1 2 3 4 5 6 7 have "rs = [r0, r1, r2, r3, r4, r5, r6, r7]" by simp
  then show thesis by (rule that)
qed

text \<open>On a board of eight ranks of eight files, the flag is the adjacency of the design.\<close>

lemma boardNear_eight:
  assumes len: "length rs = 8"
    and files: "\<forall>r \<in> set rs. \<forall>(f, k) \<in> set (rowPieces 0 r). 0 \<le> f \<and> f < 8"
  shows "boardNear epr epf 0 rs = adjacentPawn rs epr epf"
proof -
  from len obtain r0 r1 r2 r3 r4 r5 r6 r7 where rs: "rs = [r0, r1, r2, r3, r4, r5, r6, r7]"
    by (rule length_eight)
  from files rs have f3: "\<forall>(f, k) \<in> set (rowPieces 0 r3). 0 \<le> f \<and> f < 8"
    and f4: "\<forall>(f, k) \<in> set (rowPieces 0 r4). 0 \<le> f \<and> f < 8"
    by simp_all
  have "boardNear epr epf 0 rs
          = (list_ex (nearTest epr epf 4) (rowPieces 0 r3) \<or> list_ex (nearTest epr epf 3) (rowPieces 0 r4))"
    unfolding rs by (simp add: near_row_other)
  also have "\<dots> = adjacentPawn rs epr epf"
    unfolding near_row_3 [OF f4] near_row_4 [OF f3] adjacentPawn_def rs by auto
  finally show ?thesis .
qed

lemma file_letter:
  "ef \<in> set ''abcdefgh'' \<Longrightarrow> (0::int) \<le> of_char ef - 97 \<and> (of_char ef - 97 :: int) \<le> 7"
  by (simp, elim disjE) simp_all

lemma rank_digit:
  "er \<in> set ''12345678'' \<Longrightarrow> (0::int) \<le> of_char er - 49 \<and> (of_char er - 49 :: int) \<le> 7"
  by (simp, elim disjE) simp_all

lemma parseEnPassant_square:
  assumes "ef \<in> set ''abcdefgh''" "er \<in> set ''12345678''"
  shows "parseEnPassant this [ef, er]
           = this\<lparr>enPasFile := of_char ef - 97, enPasRank := of_char er - 49\<rparr>"
  using file_letter [OF assms(1)] rank_digit [OF assms(2)]
  by (simp add: parseEnPassant_def Let_def)

lemma parseEnPassant_none: "parseEnPassant this ''-'' = this"
  by (simp add: parseEnPassant_def)

lemma enPassantField_square:
  assumes "ef \<in> set ''abcdefgh''" "er \<in> set ''12345678''"
  shows "enPassantField [ef, er]"
proof -
  from assms(1) have "enPassantChar ef"
    unfolding enPassantChar_def by (simp, elim disjE) simp_all
  moreover from assms(2) have "enPassantChar er"
    unfolding enPassantChar_def by (simp, elim disjE) simp_all
  ultimately show ?thesis by (simp add: enPassantField_def)
qed

lemma hashSide_inside:
  "length hashes = 781 \<Longrightarrow> hashSide hashes arr c = Inr (foldl (xorTable hashes) arr (sideIndices c))"
  by (simp add: hashSide_def sideIndices_def xorHash_inside)

lemma hashCastling_inside:
  "length hashes = 781 \<Longrightarrow>
     hashCastling hashes arr k = Inr (foldl (xorTable hashes) arr (castlingIndices k))"
  by (simp add: hashCastling_def castlingIndices_def xorHash_inside andThen_def)

text \<open>The result of \<open>hashPosition\<close> from a board that is decoded without an exception.\<close>

lemma hashPosition_decoded:
  assumes f: "piecesField p" "colorField c" "castlingField k" "enPassantField e"
      "numberField hm" "numberField fm"
    and len: "length hashes = 781"
    and rl: "ranksLoop hashes
           (parseEnPassant (this\<lparr>error := False, enPasRank := - 1, enPasFile := - 1,
              pawnNearby := False\<rparr>) e) emptyHash 0 (splitStr (CHR ''/'') p)
         = (this3, Inr hash1)"
    and ep: "pawnNearby this3 \<longrightarrow> 0 \<le> enPasFile this3 \<and> enPasFile this3 \<le> 7"
  shows "hashPosition hashes this (fenOf p c k e hm fm) =
     (this3,
      Inr (if error this3 then ''Wrong position''
           else createHexString (foldl (xorTable hashes) hash1
                  (enPassantIndices this3 @ sideIndices c @ castlingIndices k))))"
proof -
  from f(1) have "length (splitStr (CHR ''/'') p) = 8" by (simp add: piecesField_def Let_def)
  with rl have hp: "hashPieces hashes
           (parseEnPassant (this\<lparr>error := False, enPasRank := - 1, enPasFile := - 1,
              pawnNearby := False\<rparr>) e) emptyHash p = (this3, Inr hash1)"
    by (simp add: hashPieces_def)
  have h2: "(if pawnNearby this3 then xorHash hashes hash1 (772 + enPasFile this3) else Inr hash1)
              = Inr (foldl (xorTable hashes) hash1 (enPassantIndices this3))"
  proof (cases "pawnNearby this3")
    case True
    with ep len have "xorHash hashes hash1 (772 + enPasFile this3)
                        = Inr (xorTable hashes hash1 (772 + enPasFile this3))"
      by (intro xorHash_inside) simp_all
    with True show ?thesis by (simp add: enPassantIndices_def)
  next
    case False
    then show ?thesis by (simp add: enPassantIndices_def)
  qed
  show ?thesis
    unfolding hashPosition_fields [OF f] hp
    by (simp add: h2 hashSide_inside [OF len] hashCastling_inside [OF len] andThen_def)
qed


lemma parseEnPassant_pawnNearby: "pawnNearby (parseEnPassant this e) = pawnNearby this"
  by (simp add: parseEnPassant_def Let_def)

lemma fst_hashPosition_fields:
  assumes "piecesField p" "colorField c" "castlingField k" "enPassantField e"
    "numberField hm" "numberField fm"
  shows "fst (hashPosition hashes this (fenOf p c k e hm fm))
           = fst (hashPieces hashes
                   (parseEnPassant (this\<lparr>error := False, enPasRank := - 1, enPasFile := - 1,
                      pawnNearby := False\<rparr>) e) emptyHash p)"
  unfolding hashPosition_fields [OF assms] by (simp split: prod.splits sum.splits)

section \<open>Bytewise XOR\<close>

lemma isByte_Num: "isByte x \<longleftrightarrow> (\<exists>n. x = Num n \<and> 0 \<le> n \<and> n < 256)"
  by (cases x) (simp_all add: isByte_def)

lemma toInt32_byte: "0 \<le> n \<Longrightarrow> n < 256 \<Longrightarrow> toInt32 (Num n) = n"
  by (simp add: toInt32_def)

lemma xor_byte: "0 \<le> (a::int) \<Longrightarrow> a < 256 \<Longrightarrow> 0 \<le> b \<Longrightarrow> b < 256 \<Longrightarrow> 0 \<le> a XOR b \<and> a XOR b < 256"
  using XOR_upper [of a 8 b] by simp

lemma jsXor_byte:
  assumes "isByte x" "isByte y"
  shows "isByte (jsXor x y)"
proof -
  from assms obtain a b where "x = Num a" "0 \<le> a" "a < 256" "y = Num b" "0 \<le> b" "b < 256"
    unfolding isByte_Num by blast
  then show ?thesis
    using xor_byte [of a b] by (simp add: jsXor_def toInt32_byte isByte_def)
qed

lemma jsXor_swap:
  assumes "isByte x" "isByte y" "isByte z"
  shows "jsXor (jsXor x y) z = jsXor (jsXor x z) y"
proof -
  from assms obtain a b c where v: "x = Num a" "0 \<le> a" "a < 256" "y = Num b" "0 \<le> b" "b < 256"
    "z = Num c" "0 \<le> c" "c < 256"
    unfolding isByte_Num by blast
  from v xor_byte [of a b] xor_byte [of a c] show ?thesis
    by (simp add: jsXor_def toInt32_byte ac_simps)
qed

lemma jsXor_fixed:
  assumes "isByte x" "isByte z" "jsXor x z = x"
  shows "z = Num 0"
proof -
  from assms(1,2) obtain a c where v: "x = Num a" "0 \<le> a" "a < 256" "z = Num c" "0 \<le> c" "c < 256"
    unfolding isByte_Num by blast
  with assms(3) have "a XOR c = a" by (simp add: jsXor_def toInt32_byte)
  then have "a XOR (a XOR c) = a XOR a" by simp
  then have "c = 0" by (simp add: xor.assoc [symmetric])
  with v show ?thesis by simp
qed

lemma xorArrays_Nil [simp]: "xorArrays [] b = []" "xorArrays a [] = []"
  by (simp_all add: xorArrays_def)

lemma xorArrays_Cons [simp]: "xorArrays (x # a) (y # b) = jsXor x y # xorArrays a b"
  by (simp add: xorArrays_def)

lemma xorArrays_bytes:
  "length a = length b \<Longrightarrow> list_all isByte a \<Longrightarrow> list_all isByte b \<Longrightarrow>
     length (xorArrays a b) = length a \<and> list_all isByte (xorArrays a b)"
  by (induction a b rule: list_induct2) (simp_all add: jsXor_byte)

lemma xorArrays_wf: "wfHash a \<Longrightarrow> wfHash b \<Longrightarrow> wfHash (xorArrays a b)"
  using xorArrays_bytes [of a b] by (simp add: wfHash_def)

lemma xorArrays_swap_bytes:
  "length a = length b \<Longrightarrow> length b = length c \<Longrightarrow>
     list_all isByte a \<Longrightarrow> list_all isByte b \<Longrightarrow> list_all isByte c \<Longrightarrow>
     xorArrays (xorArrays a b) c = xorArrays (xorArrays a c) b"
  by (induction a b c rule: list_induct3) (simp_all add: jsXor_swap)

lemma xorArrays_swap:
  "wfHash a \<Longrightarrow> wfHash b \<Longrightarrow> wfHash c \<Longrightarrow>
     xorArrays (xorArrays a b) c = xorArrays (xorArrays a c) b"
  using xorArrays_swap_bytes [of a b c] by (simp add: wfHash_def)

lemma xorArrays_fixed_bytes:
  "length a = length c \<Longrightarrow> list_all isByte a \<Longrightarrow> list_all isByte c \<Longrightarrow>
     xorArrays a c = a \<Longrightarrow> c = replicate (length a) (Num 0)"
  by (induction a c rule: list_induct2) (auto dest: jsXor_fixed)

lemma emptyHash_eq: "emptyHash = replicate 8 (Num 0)"
  by (simp add: emptyHash_def parseInt16_def isWhiteSpace_def isHexDigit_def hexDigitValue_def
      hexValue_def eval_nat_numeral)

lemma emptyHash_wf: "wfHash emptyHash"
  by (simp add: emptyHash_eq wfHash_def isByte_def eval_nat_numeral)

lemma xorArrays_fixed: "wfHash a \<Longrightarrow> wfHash c \<Longrightarrow> xorArrays a c = a \<Longrightarrow> c = emptyHash"
  using xorArrays_fixed_bytes [of a c] by (simp add: wfHash_def emptyHash_eq)

section \<open>Hexadecimal digits and table entries\<close>

lemma not_hex_ground:
  "\<not> isHexDigit (CHR ''-'')" "\<not> isHexDigit (CHR ''+'')" "\<not> isHexDigit (CHR ''x'')"
  "\<not> isHexDigit (CHR ''X'')"
  by (simp_all add: isHexDigit_def hexDigitValue_def)

lemma hexDigitValue_range:
  "hexDigitValue c = Some v \<Longrightarrow> 0 \<le> v \<and> v < 16"
  by (auto simp: hexDigitValue_def Let_def split: if_splits)

lemma isHexDigit_value: "isHexDigit c \<Longrightarrow> \<exists>v. hexDigitValue c = Some v \<and> 0 \<le> v \<and> v < 16"
  using hexDigitValue_range [of c] by (auto simp: isHexDigit_def)

lemma hex_not_space: "isHexDigit c \<Longrightarrow> \<not> isWhiteSpace c"
proof
  assume h: "isHexDigit c" and w: "isWhiteSpace c"
  have i: "(of_char c :: int) = int (of_char c)" by (simp add: of_nat_of_char)
  from w have "(of_char c :: int) \<in> {9, 10, 11, 12, 13, 32, 160}"
    unfolding isWhiteSpace_def i by auto
  with h show False
    by (auto simp: isHexDigit_def hexDigitValue_def Let_def split: if_splits)
qed

lemma parseInt16_hex:
  assumes "isHexDigit a" "isHexDigit b"
  shows "isByte (parseInt16 [a, b])"
proof -
  from isHexDigit_value [OF assms(1)] obtain va where va: "hexDigitValue a = Some va" "0 \<le> va" "va < 16"
    by blast
  from isHexDigit_value [OF assms(2)] obtain vb where vb: "hexDigitValue b = Some vb" "0 \<le> vb" "vb < 16"
    by blast
  from assms not_hex_ground have ne: "a \<noteq> CHR ''-''" "a \<noteq> CHR ''+''" "b \<noteq> CHR ''x''" "b \<noteq> CHR ''X''"
    by auto
  have "parseInt16 [a, b] = Num (16 * va + vb)"
    using assms ne va vb hex_not_space [OF assms(1)]
    by (simp add: parseInt16_def hexValue_def)
  with va vb show ?thesis by (simp add: isByte_def)
qed

lemma parseHexString_bytes:
  "list_all isHexDigit s \<Longrightarrow>
     list_all isByte (parseHexString s) \<and> length (parseHexString s) = length s div 2"
  by (induction s rule: parseHexString.induct) (simp_all add: parseInt16_hex)

lemma hexEntry_wf: "hexEntry s \<Longrightarrow> wfHash (parseHexString s)"
  using parseHexString_bytes [of s] by (simp add: hexEntry_def wfHash_def)

lemma xorTable_wf:
  assumes "\<forall>s \<in> set hashes. hexEntry s" "wfHash a" "0 \<le> n" "n < int (length hashes)"
  shows "wfHash (xorTable hashes a n)"
proof -
  from assms(3,4) have "hashes ! nat n \<in> set hashes" by simp
  with assms(1) have "wfHash (parseHexString (hashes ! nat n))" by (simp add: hexEntry_wf)
  with assms(2) show ?thesis by (simp add: xorTable_def xorArrays_wf)
qed

lemma foldl_xorTable_wf:
  assumes "\<forall>s \<in> set hashes. hexEntry s"
  shows "wfHash a \<Longrightarrow> \<forall>n \<in> set ns. 0 \<le> n \<and> n < int (length hashes) \<Longrightarrow>
           wfHash (foldl (xorTable hashes) a ns)"
  by (induction ns arbitrary: a) (simp_all add: xorTable_wf [OF assms])

lemma foldl_xorTable_swap:
  assumes tab: "\<forall>s \<in> set hashes. hexEntry s" and m: "0 \<le> m" "m < int (length hashes)"
  shows "wfHash a \<Longrightarrow> \<forall>n \<in> set ns. 0 \<le> n \<and> n < int (length hashes) \<Longrightarrow>
           foldl (xorTable hashes) (xorTable hashes a m) ns
             = xorTable hashes (foldl (xorTable hashes) a ns) m"
proof (induction ns arbitrary: a)
  case Nil
  show ?case by simp
next
  case (Cons n ns)
  from Cons.prems have n: "0 \<le> n" "n < int (length hashes)" by simp_all
  from m n have e: "wfHash (parseHexString (hashes ! nat m))" "wfHash (parseHexString (hashes ! nat n))"
    using tab by (simp_all add: hexEntry_wf)
  have "xorTable hashes (xorTable hashes a m) n = xorTable hashes (xorTable hashes a n) m"
    unfolding xorTable_def by (rule xorArrays_swap [OF Cons.prems(1) e])
  moreover have "wfHash (xorTable hashes a n)"
    by (rule xorTable_wf [OF tab Cons.prems(1) n])
  ultimately show ?case using Cons.IH Cons.prems(2) by simp
qed

lemma hexChar_inj: "a < 16 \<Longrightarrow> b < 16 \<Longrightarrow> hexChar a = hexChar b \<Longrightarrow> a = b"
proof -
  have d: "distinct ''0123456789abcdef''" by simp
  have l: "length ''0123456789abcdef'' = 16" by simp
  assume "a < 16" "b < 16" "hexChar a = hexChar b"
  with nth_eq_iff_index_eq [OF d, of a b] l show ?thesis by (simp add: hexChar_def)
qed

lemma hexChar_digit: "d < 16 \<Longrightarrow> isHexDigit (hexChar d)"
proof -
  assume "d < 16"
  then have "hexChar d \<in> set ''0123456789abcdef''"
    unfolding hexChar_def by (intro nth_mem) simp
  moreover have "list_all isHexDigit ''0123456789abcdef''"
    by (simp add: isHexDigit_def hexDigitValue_def)
  ultimately show ?thesis unfolding list_all_iff by blast
qed

text \<open>The two digits of a byte.\<close>

lemma hex_of_byte:
  assumes "0 \<le> n" "n < 256"
  shows "padStart2 (toString16 (Num n)) = [hexChar (nat n div 16), hexChar (nat n mod 16)]"
proof (cases "nat n < 16")
  case True
  then have "hexDigits (nat n) = [hexChar (nat n)]" by (simp add: hexDigits.simps)
  with assms True show ?thesis
    by (simp add: padStart2_def toString16_def hexChar_def)
next
  case False
  from assms have "nat n div 16 < 16" by simp
  then have "hexDigits (nat n div 16) = [hexChar (nat n div 16)]" by (simp add: hexDigits.simps)
  with False have "hexDigits (nat n) = [hexChar (nat n div 16), hexChar (nat n mod 16)]"
    by (subst hexDigits.simps) simp
  with assms show ?thesis by (simp add: padStart2_def toString16_def)
qed

lemma hex_of_byte_inj:
  assumes "isByte x" "isByte y" "padStart2 (toString16 x) = padStart2 (toString16 y)"
  shows "x = y"
proof -
  from assms(1,2) obtain a b where v: "x = Num a" "0 \<le> a" "a < 256" "y = Num b" "0 \<le> b" "b < 256"
    unfolding isByte_Num by blast
  from assms(3) v have "hexChar (nat a div 16) = hexChar (nat b div 16)"
    "hexChar (nat a mod 16) = hexChar (nat b mod 16)"
    by (simp_all add: hex_of_byte)
  moreover from v have "nat a div 16 < 16" "nat b div 16 < 16" by simp_all
  ultimately have "nat a div 16 = nat b div 16" "nat a mod 16 = nat b mod 16"
    by (simp_all add: hexChar_inj)
  then have "nat a = nat b" by (metis div_mult_mod_eq)
  with v show ?thesis by simp
qed

lemma createHexString_Cons:
  "createHexString (x # xs) = padStart2 (toString16 x) @ createHexString xs"
  by (simp add: createHexString_def)

lemma hex_of_byte_length: "isByte x \<Longrightarrow> length (padStart2 (toString16 x)) = 2"
  by (auto simp: isByte_Num hex_of_byte)

lemma createHexString_inj_bytes:
  "length a = length b \<Longrightarrow> list_all isByte a \<Longrightarrow> list_all isByte b \<Longrightarrow>
     createHexString a = createHexString b \<Longrightarrow> a = b"
proof (induction a b rule: list_induct2)
  case Nil
  show ?case by simp
next
  case (Cons x xs y ys)
  from Cons.prems have b: "isByte x" "isByte y" by simp_all
  from Cons.prems(3) have
    "padStart2 (toString16 x) @ createHexString xs = padStart2 (toString16 y) @ createHexString ys"
    by (simp only: createHexString_Cons)
  with hex_of_byte_length [OF b(1)] hex_of_byte_length [OF b(2)]
  have "padStart2 (toString16 x) = padStart2 (toString16 y)"
    "createHexString xs = createHexString ys"
    by simp_all
  with Cons.IH Cons.prems b show ?case by (simp add: hex_of_byte_inj)
qed

lemma createHexString_inj:
  "wfHash a \<Longrightarrow> wfHash b \<Longrightarrow> createHexString a = createHexString b \<Longrightarrow> a = b"
  using createHexString_inj_bytes [of a b] by (simp add: wfHash_def)

lemma createHexString_bytes:
  "list_all isByte a \<Longrightarrow>
     length (createHexString a) = 2 * length a \<and> list_all isHexDigit (createHexString a)"
proof (induction a)
  case Nil
  show ?case by (simp add: createHexString_def)
next
  case (Cons x xs)
  then obtain n where n: "x = Num n" "0 \<le> n" "n < 256" by (auto simp: isByte_Num)
  then have "nat n div 16 < 16" "nat n mod 16 < 16" by simp_all
  with Cons n show ?case
    by (simp add: createHexString_Cons hex_of_byte hexChar_digit)
qed

lemma createHexString_entry: "wfHash a \<Longrightarrow> hexEntry (createHexString a)"
  using createHexString_bytes [of a] by (simp add: wfHash_def hexEntry_def)

lemma rowPieces_kind:
  "(f, k) \<in> set (rowPieces f0 cs) \<Longrightarrow> 0 \<le> k \<and> k \<le> 11"
proof (induction cs arbitrary: f0)
  case Nil
  then show ?case by simp
next
  case (Cons c cs)
  show ?case
  proof (cases "kindIndex c")
    case None
    with Cons show ?thesis by (cases "emptySquares c") auto
  next
    case (Some k')
    from kindIndex_SomeD [OF Some] have "0 \<le> k' \<and> k' \<le> 11" by auto
    with Cons Some show ?thesis by auto
  qed
qed

lemma boardIndices_range:
  "\<forall>r \<in> set rs. \<forall>(f, k) \<in> set (rowPieces 0 r). 0 \<le> f \<and> f < 8 \<Longrightarrow>
     0 \<le> i \<Longrightarrow> i + int (length rs) \<le> 8 \<Longrightarrow>
     \<forall>n \<in> set (boardIndices i rs). 0 \<le> n \<and> n < 768"
proof (induction rs arbitrary: i)
  case Nil
  show ?case by simp
next
  case (Cons r rs)
  have "0 \<le> tableIndex i (f, k) \<and> tableIndex i (f, k) < 768"
    if "(f, k) \<in> set (rowPieces 0 r)" for f k
  proof -
    from that Cons.prems(1) have "0 \<le> f" "f < 8" by auto
    moreover from rowPieces_kind [OF that] have "0 \<le> k" "k \<le> 11" by simp_all
    moreover from Cons.prems(2,3) have "0 \<le> i" "i \<le> 7" by simp_all
    ultimately show ?thesis by (simp add: tableIndex_def)
  qed
  moreover from Cons.prems have "\<forall>n \<in> set (boardIndices (i + 1) rs). 0 \<le> n \<and> n < 768"
    by (intro Cons.IH) simp_all
  ultimately show ?case by auto
qed

section \<open>The side to move\<close>

lemma castlingIndices_range: "\<forall>n \<in> set (castlingIndices k). 768 \<le> n \<and> n \<le> 771"
  by (auto simp: castlingIndices_def)

lemma sampleTable_entries: "\<forall>s \<in> set sampleTable. hexEntry s"
proof
  fix s
  assume "s \<in> set sampleTable"
  then consider i where "i < 780" "s = sampleEntry i" | "s = ''f8d626aaaf278509''"
    by (auto simp: sampleTable_def)
  then show "hexEntry s"
  proof cases
    case 1
    from 1(1) have "(i + 1) div 256 < 256" by simp
    then have "wfHash (map Num [0, 0, 0, 0, 0, 0, int ((i + 1) div 256), int ((i + 1) mod 256)])"
      by (simp add: wfHash_def isByte_def)
    with 1(2) show ?thesis by (simp only: sampleEntry_def createHexString_entry)
  next
    case 2
    then show ?thesis by (simp add: hexEntry_def isHexDigit_def hexDigitValue_def)
  qed
qed

text \<open>
  C5. The side stage XORs entry 780 for \<open>w\<close> and does nothing for \<open>b\<close>. With a table
  of 781 entries of sixteen hexadecimal digits whose entry 780 is not zero, two FEN
  strings that differ in the side-to-move field only, and are both hashed, have
  different hashes.
\<close>

theorem side_to_move_changes_hash:
  assumes len: "length hashes = 781"
    and tab: "\<forall>s \<in> set hashes. hexEntry s"
    and nz: "parseHexString (hashes ! 780) \<noteq> emptyHash"
    and w: "hashPosition hashes this (fenOf p ''w'' k e hm fm) = (sw, Inr hw)"
      "hw \<noteq> ''Wrong position''"
    and b: "hashPosition hashes this (fenOf p ''b'' k e hm fm) = (sb, Inr hb)"
      "hb \<noteq> ''Wrong position''"
  shows "hashSide hashes arr ''w'' = xorHash hashes arr 780
       \<and> hashSide hashes arr ''b'' = Inr arr
       \<and> hw \<noteq> hb"
proof -
  let ?X = "xorTable hashes"
  let ?rows = "splitStr (CHR ''/'') p"
  let ?B = "boardIndices 0 ?rows"
  let ?C = "castlingIndices k"
  note accw = hashPosition_fenOf_accepted [OF w]
  note accb = hashPosition_fenOf_accepted [OF b]
  from accw(4) accb(4) have s: "sb = sw" by simp
  let ?E = "enPassantIndices sw"
  from ranksLoop_accepted [OF accw(4) accw(2), of this]
  have files: "\<forall>r \<in> set ?rows. \<forall>(f, k) \<in> set (rowPieces 0 r). 0 \<le> f \<and> f < 8"
    by simp
  from boardIndices_range [OF files, of 0] accw(3)
  have B: "\<forall>n \<in> set ?B. 0 \<le> n \<and> n < int (length hashes)"
    using len by fastforce
  from accw(5) have E: "\<forall>n \<in> set ?E. 0 \<le> n \<and> n < int (length hashes)"
    by (simp add: enPassantIndices_def)
  from castlingIndices_range [of k] have C: "\<forall>n \<in> set ?C. 0 \<le> n \<and> n < int (length hashes)"
    using len by fastforce
  let ?a = "foldl ?X emptyHash (?B @ ?E)"
  let ?d = "foldl ?X ?a ?C"
  from B E have a: "wfHash ?a"
    by (intro foldl_xorTable_wf [OF tab emptyHash_wf]) auto
  from C have d: "wfHash ?d"
    by (intro foldl_xorTable_wf [OF tab a])
  have side: "0 \<le> (780::int)" "780 < int (length hashes)" using len by simp_all
  from accw(6) have "hw = createHexString (foldl ?X (?X ?a 780) ?C)"
    by (simp add: sideIndices_def)
  then have hw: "hw = createHexString (?X ?d 780)"
    by (simp only: foldl_xorTable_swap [OF tab side a C])
  from accb(6) s have hb: "hb = createHexString ?d"
    by (simp add: sideIndices_def)
  from side tab have e: "wfHash (parseHexString (hashes ! 780))"
    by (intro hexEntry_wf) simp
  have "hw \<noteq> hb"
  proof
    assume "hw = hb"
    with hw hb have "createHexString (?X ?d 780) = createHexString ?d" by simp
    moreover have "wfHash (?X ?d 780)" by (rule xorTable_wf [OF tab d side])
    ultimately have "?X ?d 780 = ?d" using d by (intro createHexString_inj)
    then have "xorArrays ?d (parseHexString (hashes ! 780)) = ?d" by (simp add: xorTable_def)
    from xorArrays_fixed [OF d e this] nz show False by simp
  qed
  then show ?thesis by (simp add: hashSide_def)
qed

theorem side_to_move_changes_hash_witness:
  "length sampleTable = 781
   \<and> list_all hexEntry sampleTable
   \<and> parseHexString (sampleTable ! 780) \<noteq> emptyHash
   \<and> hashPosition sampleTable newChessHasher (fenOf ''8/8/8/8/8/8/8/8'' ''w'' ''-'' ''-'' ''0'' ''1'')
       = (newChessHasher, Inr ''f8d626aaaf278509'')
   \<and> hashPosition sampleTable newChessHasher (fenOf ''8/8/8/8/8/8/8/8'' ''b'' ''-'' ''-'' ''0'' ''1'')
       = (newChessHasher, Inr ''0000000000000000'')
   \<and> ''f8d626aaaf278509'' \<noteq> ''0000000000000000''"
proof -
  have nz: "parseHexString (sampleTable ! 780) \<noteq> emptyHash"
    by (simp add: run)
  have w: "hashPosition sampleTable newChessHasher
             (fenOf ''8/8/8/8/8/8/8/8'' ''w'' ''-'' ''-'' ''0'' ''1'')
       = (newChessHasher, Inr ''f8d626aaaf278509'')"
    by (simp add: fenOf_def run)
  have b: "hashPosition sampleTable newChessHasher
             (fenOf ''8/8/8/8/8/8/8/8'' ''b'' ''-'' ''-'' ''0'' ''1'')
       = (newChessHasher, Inr ''0000000000000000'')"
    by (simp add: fenOf_def run)
  have ne: "''f8d626aaaf278509'' \<noteq> ''Wrong position''" "''0000000000000000'' \<noteq> ''Wrong position''"
    by simp_all
  have tab: "list_all hexEntry sampleTable"
    using sampleTable_entries by (simp only: list_all_iff)
  from side_to_move_changes_hash [OF length_sampleTable sampleTable_entries nz w ne(1) b ne(2)]
    length_sampleTable tab nz w b
  show ?thesis by simp
qed

section \<open>The number a hash denotes\<close>

lemma concat_byte: "0 \<le> x \<Longrightarrow> x < 256 \<Longrightarrow> 256 * u + x = concat_bit 8 x u"
  by (simp add: concat_bit_eq take_bit_int_eq_self push_bit_eq_mult)

lemma concat_bit_xor:
  "concat_bit n (x XOR y) (u XOR v) = concat_bit n x u XOR concat_bit n y v"
  by (rule bit_eqI) (auto simp: bit_simps)

lemma xor_bytes_number:
  assumes "0 \<le> x" "x < 256" "0 \<le> y" "y < 256"
  shows "256 * (u XOR v) + (x XOR y) = (256 * u + x) XOR (256 * v + (y::int))"
proof -
  from assms xor_byte [of x y] have "0 \<le> x XOR y" "x XOR y < 256" by simp_all
  then show ?thesis
    by (simp only: concat_byte assms concat_bit_xor)
qed

lemma hexDigitValue_hexChar: "d < 16 \<Longrightarrow> hexDigitValue (hexChar d) = Some (int d)"
proof -
  assume "d < 16"
  then have "d = 0 \<or> d = 1 \<or> d = 2 \<or> d = 3 \<or> d = 4 \<or> d = 5 \<or> d = 6 \<or> d = 7 \<or> d = 8
    \<or> d = 9 \<or> d = 10 \<or> d = 11 \<or> d = 12 \<or> d = 13 \<or> d = 14 \<or> d = 15"
    by presburger
  then show ?thesis
    by (elim disjE) (simp_all add: hexChar_def hexDigitValue_def)
qed


lemma digitsNumber_append: "digitsNumber n (s @ t) = digitsNumber (digitsNumber n s) t"
  by (simp add: digitsNumber_def)

lemma hexValue_digitsNumber: "hexValue s = digitsNumber 0 s"
  by (simp add: hexValue_def digitsNumber_def)

text \<open>The digits of \<open>createHexString\<close> denote the number of the bytes.\<close>

lemma digitsNumber_createHexString:
  "list_all isByte a \<Longrightarrow> digitsNumber n (createHexString a) = bytesNumber n a"
proof (induction a arbitrary: n)
  case Nil
  show ?case by (simp add: createHexString_def digitsNumber_def bytesNumber_def)
next
  case (Cons x xs)
  then obtain m where m: "x = Num m" "0 \<le> m" "m < 256" by (auto simp: isByte_Num)
  then have q: "nat m div 16 < 16" "nat m mod 16 < 16" by simp_all
  from m have i: "int (nat m div 16) = m div 16" "int (nat m mod 16) = m mod 16"
    by (simp_all add: zdiv_int zmod_int)
  define q r where "q = m div 16" and "r = m mod 16"
  have qr: "16 * q + r = m" by (simp add: q_def r_def)
  have "16 * (16 * n + q) + r = 256 * n + (16 * q + r)" by (simp add: algebra_simps)
  then have "16 * (16 * n + q) + r = 256 * n + m" by (simp only: qr)
  then have v: "16 * (16 * n + int (nat m div 16)) + int (nat m mod 16) = 256 * n + m"
    by (simp only: i q_def r_def)
  have "digitsNumber n (padStart2 (toString16 x)) = 256 * n + m"
    using v by (simp add: m hex_of_byte digitsNumber_def hexDigitValue_hexChar [OF q(1)]
        hexDigitValue_hexChar [OF q(2)])
  moreover have "bytesNumber n (x # xs) = bytesNumber (256 * n + m) xs"
    using m by (simp add: bytesNumber_def toInt32_byte)
  moreover from Cons have "digitsNumber (256 * n + m) (createHexString xs)
                             = bytesNumber (256 * n + m) xs"
    by simp
  ultimately show ?case
    by (simp add: createHexString_Cons digitsNumber_append)
qed

lemma parseInt16_value:
  assumes "isHexDigit a" "isHexDigit b"
  shows "\<exists>m. parseInt16 [a, b] = Num m \<and> 0 \<le> m \<and> m < 256 \<and> digitsNumber n [a, b] = 256 * n + m"
proof -
  from isHexDigit_value [OF assms(1)] obtain va where va: "hexDigitValue a = Some va" "0 \<le> va" "va < 16"
    by blast
  from isHexDigit_value [OF assms(2)] obtain vb where vb: "hexDigitValue b = Some vb" "0 \<le> vb" "vb < 16"
    by blast
  from assms not_hex_ground have ne: "a \<noteq> CHR ''-''" "a \<noteq> CHR ''+''" "b \<noteq> CHR ''x''" "b \<noteq> CHR ''X''"
    by auto
  have "parseInt16 [a, b] = Num (16 * va + vb)"
    using assms ne va vb hex_not_space [OF assms(1)]
    by (simp add: parseInt16_def hexValue_def)
  moreover have "digitsNumber n [a, b] = 256 * n + (16 * va + vb)"
    using va vb by (simp add: digitsNumber_def)
  ultimately show ?thesis using va vb by simp
qed

text \<open>The bytes of \<open>parseHexString\<close> denote the number of the digits.\<close>

lemma bytesNumber_parseHexString:
  "list_all isHexDigit s \<Longrightarrow> even (length s) \<Longrightarrow>
     bytesNumber n (parseHexString s) = digitsNumber n s"
proof (induction s arbitrary: n rule: parseHexString.induct)
  case (1 a b remaining)
  then have h: "isHexDigit a" "isHexDigit b" "list_all isHexDigit remaining"
    "even (length remaining)"
    by simp_all
  from parseInt16_value [OF h(1,2), of n] obtain m where
    m: "parseInt16 [a, b] = Num m" "0 \<le> m" "m < 256" "digitsNumber n [a, b] = 256 * n + m"
    by blast
  have "digitsNumber n (a # b # remaining) = digitsNumber (256 * n + m) remaining"
    using digitsNumber_append [of n "[a, b]" remaining] m(4) by simp
  moreover have "bytesNumber n (parseHexString (a # b # remaining))
                   = bytesNumber (256 * n + m) (parseHexString remaining)"
    using m by (simp add: bytesNumber_def toInt32_byte)
  ultimately show ?case using "1.IH" [OF h(3,4)] by simp
qed (simp_all add: bytesNumber_def digitsNumber_def)

text \<open>The bytewise \<open>^\<close> of two hashes is the XOR of the numbers they denote.\<close>

lemma bytesNumber_xorArrays:
  "length a = length b \<Longrightarrow> list_all isByte a \<Longrightarrow> list_all isByte b \<Longrightarrow>
     bytesNumber (u XOR v) (xorArrays a b) = bytesNumber u a XOR bytesNumber v b"
proof (induction a b arbitrary: u v rule: list_induct2)
  case Nil
  show ?case by (simp add: bytesNumber_def)
next
  case (Cons x xs y ys)
  then obtain m k where m: "x = Num m" "0 \<le> m" "m < 256" and k: "y = Num k" "0 \<le> k" "k < 256"
    by (auto simp: isByte_Num)
  from m k xor_byte [of m k] have j: "jsXor x y = Num (m XOR k)" "0 \<le> m XOR k" "m XOR k < 256"
    by (simp_all add: jsXor_def toInt32_byte)
  have "bytesNumber (u XOR v) (xorArrays (x # xs) (y # ys))
          = bytesNumber (256 * (u XOR v) + (m XOR k)) (xorArrays xs ys)"
    using j by (simp add: bytesNumber_def toInt32_byte)
  also have "\<dots> = bytesNumber ((256 * u + m) XOR (256 * v + k)) (xorArrays xs ys)"
    using m k by (simp only: xor_bytes_number)
  also have "\<dots> = bytesNumber (256 * u + m) xs XOR bytesNumber (256 * v + k) ys"
    using Cons by simp
  also have "\<dots> = bytesNumber u (x # xs) XOR bytesNumber v (y # ys)"
    using m k by (simp add: bytesNumber_def toInt32_byte)
  finally show ?case .
qed

text \<open>
  One XOR of a table entry, read off the hexadecimal strings: the number of the new hash
  is the number of the old one XOR the number of the entry.
\<close>

lemma hexValue_xorTable:
  assumes tab: "\<forall>s \<in> set hashes. hexEntry s" and d: "wfHash d"
    and n: "0 \<le> n" "n < int (length hashes)"
  shows "hexValue (createHexString (xorTable hashes d n))
           = hexValue (createHexString d) XOR hexValue (hashes ! nat n)"
proof -
  let ?s = "hashes ! nat n"
  from n tab have e: "hexEntry ?s" by simp
  then have w: "wfHash (parseHexString ?s)" by (rule hexEntry_wf)
  from e have ev: "list_all isHexDigit ?s" "even (length ?s)" by (simp_all add: hexEntry_def)
  from d w have x: "wfHash (xorArrays d (parseHexString ?s))" by (rule xorArrays_wf)
  have "hexValue (createHexString (xorTable hashes d n))
          = bytesNumber (0 XOR 0) (xorArrays d (parseHexString ?s))"
    using x by (simp add: hexValue_digitsNumber digitsNumber_createHexString xorTable_def wfHash_def)
  also have "\<dots> = bytesNumber 0 d XOR bytesNumber 0 (parseHexString ?s)"
    using d w by (intro bytesNumber_xorArrays) (simp_all add: wfHash_def)
  also have "\<dots> = hexValue (createHexString d) XOR hexValue ?s"
    using d ev
    by (simp add: hexValue_digitsNumber digitsNumber_createHexString bytesNumber_parseHexString
        wfHash_def)
  finally show ?thesis .
qed

section \<open>The en-passant constant\<close>

lemma sideIndices_range: "\<forall>n \<in> set (sideIndices c). n = 780"
  by (simp add: sideIndices_def)

text \<open>
  C3. Take a FEN string that is hashed when its en-passant field is \<open>-\<close>, and put a
  square \<open>a1\<close> .. \<open>h8\<close> in that field. The hash then holds the constant
  \<open>772 + file\<close> of the target once, after those of the pieces, when a capturing pawn is
  adjacent to the target, whatever the number of such pawns: the number the returned
  string denotes is the number of the string returned for \<open>-\<close>, XOR the number of the
  table entry. When no capturing pawn is adjacent, the hash is the one of the string with
  \<open>-\<close>.
\<close>

theorem en_passant_gated_by_adjacent_pawn:
  assumes len: "length hashes = 781"
    and base: "hashPosition hashes this (fenOf p c k ''-'' hm fm) = (this0, Inr h0)"
    and h0: "h0 \<noteq> ''Wrong position''"
    and sq: "ef \<in> set ''abcdefgh''" "er \<in> set ''12345678''"
  shows "snd (hashPosition hashes this (fenOf p c k [ef, er] hm fm))
           = Inr (createHexString (foldl (xorTable hashes) emptyHash
                (boardIndices 0 (splitStr (CHR ''/'') p)
                 @ (if adjacentPawn (splitStr (CHR ''/'') p) (of_char er - 49) (of_char ef - 97)
                    then [772 + (of_char ef - 97)] else [])
                 @ sideIndices c @ castlingIndices k)))
       \<and> h0 = createHexString (foldl (xorTable hashes) emptyHash
                (boardIndices 0 (splitStr (CHR ''/'') p) @ sideIndices c @ castlingIndices k))
       \<and> (\<not> adjacentPawn (splitStr (CHR ''/'') p) (of_char er - 49) (of_char ef - 97) \<longrightarrow>
            snd (hashPosition hashes this (fenOf p c k [ef, er] hm fm)) = Inr h0)
       \<and> (list_all hexEntry hashes
            \<and> adjacentPawn (splitStr (CHR ''/'') p) (of_char er - 49) (of_char ef - 97) \<longrightarrow>
            map_sum id hexValue (snd (hashPosition hashes this (fenOf p c k [ef, er] hm fm)))
              = Inr (hexValue h0 XOR hexValue (hashes ! nat (772 + (of_char ef - 97)))))"
proof -
  let ?reset = "this\<lparr>error := False, enPasRank := - 1, enPasFile := - 1, pawnNearby := False\<rparr>"
  let ?rows = "splitStr (CHR ''/'') p"
  let ?f = "of_char ef - 97 :: int"
  let ?r = "of_char er - 49 :: int"
  let ?X = "xorTable hashes"
  let ?B = "boardIndices 0 ?rows"
  let ?SC = "sideIndices c @ castlingIndices k"
  let ?hash1 = "foldl ?X emptyHash ?B"
  let ?that = "?reset\<lparr>enPasFile := ?f, enPasRank := ?r\<rparr>"
  let ?adj = "adjacentPawn ?rows ?r ?f"
  note acc = hashPosition_fenOf_accepted [OF base h0]
  from acc(4) have rl0: "ranksLoop hashes ?reset emptyHash 0 ?rows = (this0, Inr ?hash1)"
    by (simp add: parseEnPassant_none)
  note ra = ranksLoop_accepted [OF rl0 acc(2)]
  from ra [of ?reset] rl0 have "this0 = markNearby ?reset (boardNear (- 1) (- 1) 0 ?rows)"
    by simp
  then have "\<not> pawnNearby this0" by (simp add: boardNear_no_target markNearby_simps)
  with acc(6) have h0_eq: "h0 = createHexString (foldl ?X emptyHash (?B @ ?SC))"
    by (simp add: enPassantIndices_def)
  from ra [of ?that] have files: "\<forall>r \<in> set ?rows. \<forall>(f, k) \<in> set (rowPieces 0 r). 0 \<le> f \<and> f < 8"
    and "ranksLoop hashes ?that emptyHash 0 ?rows
           = (markNearby ?that (boardNear ?r ?f 0 ?rows), Inr ?hash1)"
    by simp_all
  then have rl1: "ranksLoop hashes (parseEnPassant ?reset [ef, er]) emptyHash 0 ?rows
                    = (markNearby ?that ?adj, Inr ?hash1)"
    by (simp add: boardNear_eight [OF acc(3) files] parseEnPassant_square [OF sq])
  have ep: "pawnNearby (markNearby ?that ?adj) \<longrightarrow>
              0 \<le> enPasFile (markNearby ?that ?adj) \<and> enPasFile (markNearby ?that ?adj) \<le> 7"
    using file_letter [OF sq(1)] by (simp add: markNearby_simps)
  from acc(1) have f: "piecesField p" "colorField c" "castlingField k" "numberField hm"
    "numberField fm"
    by simp_all
  from hashPosition_decoded [OF f(1-3) enPassantField_square [OF sq] f(4,5) len rl1 ep]
  have res: "snd (hashPosition hashes this (fenOf p c k [ef, er] hm fm))
           = Inr (createHexString (foldl ?X emptyHash
                (?B @ (if ?adj then [772 + ?f] else []) @ ?SC)))"
    by (simp add: markNearby_simps enPassantIndices_def)
  have num: "map_sum id hexValue (snd (hashPosition hashes this (fenOf p c k [ef, er] hm fm)))
              = Inr (hexValue h0 XOR hexValue (hashes ! nat (772 + ?f)))"
    if t: "list_all hexEntry hashes" and adj: ?adj
  proof -
    from t have tab: "\<forall>s \<in> set hashes. hexEntry s" by (simp only: list_all_iff)
    from boardIndices_range [OF files, of 0] acc(3)
    have B: "\<forall>n \<in> set ?B. 0 \<le> n \<and> n < int (length hashes)"
      using len by fastforce
    from sideIndices_range [of c] castlingIndices_range [of k]
    have SC: "\<forall>n \<in> set ?SC. 0 \<le> n \<and> n < int (length hashes)"
      using len by fastforce
    from file_letter [OF sq(1)] len
    have n: "0 \<le> 772 + ?f" "772 + ?f < int (length hashes)" by simp_all
    have a: "wfHash ?hash1"
      by (rule foldl_xorTable_wf [OF tab emptyHash_wf B])
    let ?d = "foldl ?X ?hash1 ?SC"
    have d: "wfHash ?d" by (rule foldl_xorTable_wf [OF tab a SC])
    from res adj
    have "snd (hashPosition hashes this (fenOf p c k [ef, er] hm fm))
            = Inr (createHexString (foldl ?X (?X ?hash1 (772 + ?f)) ?SC))"
      by (simp only: if_True foldl_append foldl.simps)
    then have e1: "snd (hashPosition hashes this (fenOf p c k [ef, er] hm fm))
            = Inr (createHexString (?X ?d (772 + ?f)))"
      by (simp only: foldl_xorTable_swap [OF tab n a SC])
    from h0_eq have e2: "h0 = createHexString ?d" by (simp only: foldl_append)
    note v = hexValue_xorTable [OF tab d n]
    show ?thesis unfolding e1 e2 by (simp only: map_sum.simps v)
  qed
  from res h0_eq num show ?thesis by simp
qed


theorem en_passant_gated_by_adjacent_pawn_witness:
  "length sampleTable = 781
   \<and> list_all hexEntry sampleTable
   \<and> hashPosition sampleTable newChessHasher (fenOf ''8/8/8/8/3p4/8/8/8'' ''b'' ''-'' ''-'' ''0'' ''1'')
       = (newChessHasher, Inr ''000000000000001c'')
   \<and> adjacentPawn (splitStr (CHR ''/'') ''8/8/8/8/3p4/8/8/8'') 2 4
   \<and> snd (hashPosition sampleTable newChessHasher
            (fenOf ''8/8/8/8/3p4/8/8/8'' ''b'' ''-'' ''e3'' ''0'' ''1''))
       = Inr ''0000000000000315''
   \<and> hexValue ''0000000000000315''
       = hexValue ''000000000000001c'' XOR hexValue (sampleTable ! 776)
   \<and> \<not> adjacentPawn (splitStr (CHR ''/'') ''8/8/8/8/3p4/8/8/8'') 5 4
   \<and> snd (hashPosition sampleTable newChessHasher
            (fenOf ''8/8/8/8/3p4/8/8/8'' ''b'' ''-'' ''e6'' ''0'' ''1''))
       = Inr ''000000000000001c''
   \<and> hashPosition sampleTable newChessHasher
        (fenOf ''8/8/8/8/3p1p2/8/8/8'' ''b'' ''-'' ''-'' ''0'' ''1'')
       = (newChessHasher, Inr ''0000000000000002'')
   \<and> adjacentPawn (splitStr (CHR ''/'') ''8/8/8/8/3p1p2/8/8/8'') 2 4
   \<and> snd (hashPosition sampleTable newChessHasher
            (fenOf ''8/8/8/8/3p1p2/8/8/8'' ''b'' ''-'' ''e3'' ''0'' ''1''))
       = Inr ''000000000000030b''
   \<and> hexValue ''000000000000030b''
       = hexValue ''0000000000000002'' XOR hexValue (sampleTable ! 776)"
proof -
  have tab: "list_all hexEntry sampleTable"
    using sampleTable_entries by (simp only: list_all_iff)
  have base1: "hashPosition sampleTable newChessHasher
                (fenOf ''8/8/8/8/3p4/8/8/8'' ''b'' ''-'' ''-'' ''0'' ''1'')
       = (newChessHasher, Inr ''000000000000001c'')"
    by (simp add: fenOf_def run)
  have base2: "hashPosition sampleTable newChessHasher
                (fenOf ''8/8/8/8/3p1p2/8/8/8'' ''b'' ''-'' ''-'' ''0'' ''1'')
       = (newChessHasher, Inr ''0000000000000002'')"
    by (simp add: fenOf_def run)
  have ne: "''000000000000001c'' \<noteq> ''Wrong position''" "''0000000000000002'' \<noteq> ''Wrong position''"
    by simp_all
  have sq: "CHR ''e'' \<in> set ''abcdefgh''" "CHR ''3'' \<in> set ''12345678''"
    "CHR ''6'' \<in> set ''12345678''"
    by simp_all
  have n: "(of_char (CHR ''e'') - 97 :: int) = 4" "(of_char (CHR ''3'') - 49 :: int) = 2"
    "(of_char (CHR ''6'') - 49 :: int) = 5" "nat (772 + 4) = 776"
    by simp_all
  have adj1: "adjacentPawn (splitStr (CHR ''/'') ''8/8/8/8/3p4/8/8/8'') 2 4"
    and nadj1: "\<not> adjacentPawn (splitStr (CHR ''/'') ''8/8/8/8/3p4/8/8/8'') 5 4"
    and adj2: "adjacentPawn (splitStr (CHR ''/'') ''8/8/8/8/3p1p2/8/8/8'') 2 4"
    by (simp_all add: adjacentPawn_def pawnBeside_def kindIndex_def emptySquares_def digitChar_def)
  have r1: "snd (hashPosition sampleTable newChessHasher
            (fenOf ''8/8/8/8/3p4/8/8/8'' ''b'' ''-'' ''e3'' ''0'' ''1''))
       = Inr ''0000000000000315''"
    by (simp add: fenOf_def run)
  have r2: "snd (hashPosition sampleTable newChessHasher
            (fenOf ''8/8/8/8/3p1p2/8/8/8'' ''b'' ''-'' ''e3'' ''0'' ''1''))
       = Inr ''000000000000030b''"
    by (simp add: fenOf_def run)
  note t1 = en_passant_gated_by_adjacent_pawn [OF length_sampleTable base1 ne(1) sq(1,2),
      unfolded n, THEN conjunct2, THEN conjunct2, THEN conjunct2]
  note t2 = en_passant_gated_by_adjacent_pawn [OF length_sampleTable base1 ne(1) sq(1,3),
      unfolded n, THEN conjunct2, THEN conjunct2, THEN conjunct1]
  note t3 = en_passant_gated_by_adjacent_pawn [OF length_sampleTable base2 ne(2) sq(1,2),
      unfolded n, THEN conjunct2, THEN conjunct2, THEN conjunct2]
  from t1 tab adj1 have v1: "hexValue ''0000000000000315''
       = hexValue ''000000000000001c'' XOR hexValue (sampleTable ! 776)"
    unfolding r1 by (simp only: map_sum.simps sum.inject simp_thms)
  from t2 nadj1 have r3: "snd (hashPosition sampleTable newChessHasher
            (fenOf ''8/8/8/8/3p4/8/8/8'' ''b'' ''-'' ''e6'' ''0'' ''1''))
       = Inr ''000000000000001c''"
    by (rule mp)
  from t3 tab adj2 have v2: "hexValue ''000000000000030b''
       = hexValue ''0000000000000002'' XOR hexValue (sampleTable ! 776)"
    unfolding r2 by (simp only: map_sum.simps sum.inject simp_thms)
  show ?thesis
    by (intro conjI) (fact length_sampleTable tab base1 adj1 r1 v1 nadj1 r3 base2 adj2 r2 v2)+
qed

lemma fileOf_code:
  assumes "enPassantChar ef" "0 \<le> (of_char ef - 97 :: int)" "(of_char ef - 97 :: int) \<le> 7"
  shows "fileOf ef = Some (of_char ef - 97)"
  using assms unfolding enPassantChar_def by (simp, elim disjE) (simp_all add: fileOf_def)

lemma rankOf_code:
  assumes "enPassantChar er" "0 \<le> (of_char er - 49 :: int)" "(of_char er - 49 :: int) \<le> 7"
  shows "rankOf er = Some (of_char er - 49)"
  using assms unfolding enPassantChar_def by (simp, elim disjE) (simp_all add: rankOf_def)

lemma declaredTarget_none: "declaredTarget ''-'' = None"
  by (simp add: declaredTarget_def)

text \<open>What \<open>parseEnPassant\<close> leaves in the instance, when it does not set the error flag.\<close>

lemma parseEnPassant_target:
  assumes e: "enPassantField e" and ne: "\<not> error (parseEnPassant this e)" "\<not> error this"
  shows "(e = ''-'' \<and> parseEnPassant this e = this)
       \<or> (\<exists>r f. declaredTarget e = Some (r, f) \<and> 0 \<le> f \<and> f \<le> 7
             \<and> parseEnPassant this e = this\<lparr>enPasFile := f, enPasRank := r\<rparr>)"
proof (cases "e = ''-''")
  case True
  then show ?thesis by (simp add: parseEnPassant_def)
next
  case False
  from e have n: "e \<noteq> []" by (auto simp: enPassantField_def)
  have l: "length e = 2"
  proof (rule ccontr)
    assume "length e \<noteq> 2"
    with False n have "parseEnPassant this e = this\<lparr>error := True\<rparr>"
      by (simp add: parseEnPassant_def)
    with ne(1) show False by simp
  qed
  then obtain ef er where eq: "e = [ef, er]"
    by (cases e; cases "tl e") auto
  with e have ch: "enPassantChar ef" "enPassantChar er" by (simp_all add: enPassantField_def)
  let ?f = "of_char ef - 97 :: int"
  let ?r = "of_char er - 49 :: int"
  have rng: "0 \<le> ?f \<and> ?f \<le> 7 \<and> 0 \<le> ?r \<and> ?r \<le> 7"
  proof (rule ccontr)
    assume "\<not> (0 \<le> ?f \<and> ?f \<le> 7 \<and> 0 \<le> ?r \<and> ?r \<le> 7)"
    then have "?f < 0 \<or> ?f > 7 \<or> ?r < 0 \<or> ?r > 7" by linarith
    with False have "parseEnPassant this e = this\<lparr>error := True\<rparr>"
      unfolding eq by (simp add: parseEnPassant_def Let_def)
    with ne(1) show False by simp
  qed
  then have p: "parseEnPassant this e = this\<lparr>enPasFile := ?f, enPasRank := ?r\<rparr>"
    using False unfolding eq by (simp add: parseEnPassant_def Let_def)
  from rng have "declaredTarget e = Some (?r, ?f)"
    unfolding eq by (simp add: declaredTarget_def fileOf_code [OF ch(1)] rankOf_code [OF ch(2)])
  with p rng show ?thesis by blast
qed


text \<open>
  C8 (as amended). On a FEN string that is hashed, the en-passant field is \<open>-\<close> or
  declares a target square, and the en-passant constant \<open>772 + file\<close> of the declared
  target is XOR-ed in exactly when a pawn stands on a file next to the target: a black
  pawn on board rank 3 for a target on rank 2, a white pawn on board rank 4 for a target
  on rank 5. The colour of that pawn follows from the rank of the declared target; the
  side-to-move field is not consulted, and the flag is the same whichever side the
  string declares to move.
\<close>

theorem en_passant_pawn_by_target_rank:
  assumes res: "hashPosition hashes this (fenOf p c k e hm fm) = (this', Inr h)"
    and h: "h \<noteq> ''Wrong position''"
  shows "(e = ''-'' \<or> declaredTarget e \<noteq> None)
       \<and> pawnNearby this'
           = (case declaredTarget e of
                None \<Rightarrow> False
              | Some (r, f) \<Rightarrow> adjacentPawn (splitStr (CHR ''/'') p) r f)
       \<and> h = createHexString (foldl (xorTable hashes) emptyHash
                (boardIndices 0 (splitStr (CHR ''/'') p)
                 @ targetIndices (splitStr (CHR ''/'') p) e
                 @ sideIndices c @ castlingIndices k))
       \<and> fst (hashPosition hashes this (fenOf p ''w'' k e hm fm)) = this'
       \<and> fst (hashPosition hashes this (fenOf p ''b'' k e hm fm)) = this'"
proof -
  let ?reset = "this\<lparr>error := False, enPasRank := - 1, enPasFile := - 1, pawnNearby := False\<rparr>"
  let ?this2 = "parseEnPassant ?reset e"
  let ?rows = "splitStr (CHR ''/'') p"
  note acc = hashPosition_fenOf_accepted [OF res h]
  from acc(1) have f: "piecesField p" "castlingField k" "enPassantField e" "numberField hm"
    "numberField fm" "colorField c"
    by simp_all
  have ne2: "\<not> error ?this2"
    using ranksLoop_error [OF acc(4)] acc(2) by blast
  note ra = ranksLoop_accepted [OF acc(4) acc(2), of ?this2]
  from ra acc(4)
  have this': "this' = markNearby ?this2 (boardNear (enPasRank ?this2) (enPasFile ?this2) 0 ?rows)"
    and files: "\<forall>r \<in> set ?rows. \<forall>(f, k) \<in> set (rowPieces 0 r). 0 \<le> f \<and> f < 8"
    by simp_all
  have key: "(e = ''-'' \<or> declaredTarget e \<noteq> None)
       \<and> pawnNearby this'
           = (case declaredTarget e of None \<Rightarrow> False | Some (r, f) \<Rightarrow> adjacentPawn ?rows r f)
       \<and> enPassantIndices this' = targetIndices ?rows e"
  proof -
    from parseEnPassant_target [OF f(3) ne2] consider
      (none) "e = ''-''" "?this2 = ?reset"
      | (square) r f where "declaredTarget e = Some (r, f)"
          "?this2 = ?reset\<lparr>enPasFile := f, enPasRank := r\<rparr>"
      by auto
    then show ?thesis
    proof cases
      case none
      from this' have "this' = ?reset"
        unfolding none(2) by (simp add: boardNear_no_target markNearby_simps)
      then show ?thesis
        by (simp add: none(1) declaredTarget_none targetIndices_def enPassantIndices_def)
    next
      case (square r f)
      from this' have "this' = markNearby (?reset\<lparr>enPasFile := f, enPasRank := r\<rparr>)
                                 (adjacentPawn ?rows r f)"
        unfolding square(2) by (simp add: boardNear_eight [OF acc(3) files])
      then show ?thesis
        by (simp add: square(1) targetIndices_def enPassantIndices_def markNearby_simps)
    qed
  qed
  from acc(6) key have hex: "h = createHexString (foldl (xorTable hashes) emptyHash
                (boardIndices 0 ?rows @ targetIndices ?rows e
                 @ sideIndices c @ castlingIndices k))"
    by simp
  have col: "colorField ''w''" "colorField ''b''" by (simp_all add: colorField_def)
  have "fst (hashPosition hashes this (fenOf p c k e hm fm)) = this'" using res by simp
  then have "fst (hashPieces hashes ?this2 emptyHash p) = this'"
    by (simp only: fst_hashPosition_fields [OF f(1) f(6) f(2-5)])
  then have "fst (hashPosition hashes this (fenOf p ''w'' k e hm fm)) = this'"
    "fst (hashPosition hashes this (fenOf p ''b'' k e hm fm)) = this'"
    by (simp_all only: fst_hashPosition_fields [OF f(1) col(1) f(2-5)]
        fst_hashPosition_fields [OF f(1) col(2) f(2-5)])
  with key hex show ?thesis by blast
qed

theorem en_passant_pawn_by_target_rank_witness:
  "hashPosition sampleTable newChessHasher (fenOf ''8/8/8/8/3p4/8/8/8'' ''b'' ''-'' ''e3'' ''0'' ''1'')
     = (\<lparr>error = False, enPasRank = 2, enPasFile = 4, pawnNearby = True\<rparr>,
        Inr ''0000000000000315'')
   \<and> declaredTarget ''e3'' = Some (2, 4)
   \<and> adjacentPawn (splitStr (CHR ''/'') ''8/8/8/8/3p4/8/8/8'') 2 4
   \<and> fst (hashPosition sampleTable newChessHasher
            (fenOf ''8/8/8/8/3p4/8/8/8'' ''w'' ''-'' ''e3'' ''0'' ''1''))
       = \<lparr>error = False, enPasRank = 2, enPasFile = 4, pawnNearby = True\<rparr>
   \<and> hashPosition sampleTable newChessHasher (fenOf ''8/8/8/3P4/8/8/8/8'' ''w'' ''-'' ''e6'' ''0'' ''1'')
     = (\<lparr>error = False, enPasRank = 5, enPasFile = 4, pawnNearby = True\<rparr>,
        Inr ''f8d626aaaf278664'')
   \<and> declaredTarget ''e6'' = Some (5, 4)
   \<and> adjacentPawn (splitStr (CHR ''/'') ''8/8/8/3P4/8/8/8/8'') 5 4
   \<and> hashPosition sampleTable newChessHasher (fenOf ''8/8/8/8/3p4/8/8/8'' ''w'' ''-'' ''e6'' ''0'' ''1'')
     = (\<lparr>error = False, enPasRank = 5, enPasFile = 4, pawnNearby = False\<rparr>,
        Inr ''f8d626aaaf278515'')
   \<and> \<not> adjacentPawn (splitStr (CHR ''/'') ''8/8/8/8/3p4/8/8/8'') 5 4"
proof -
  have r1: "hashPosition sampleTable newChessHasher
              (fenOf ''8/8/8/8/3p4/8/8/8'' ''b'' ''-'' ''e3'' ''0'' ''1'')
     = (\<lparr>error = False, enPasRank = 2, enPasFile = 4, pawnNearby = True\<rparr>,
        Inr ''0000000000000315'')"
    by (simp add: fenOf_def run)
  have r2: "hashPosition sampleTable newChessHasher
              (fenOf ''8/8/8/3P4/8/8/8/8'' ''w'' ''-'' ''e6'' ''0'' ''1'')
     = (\<lparr>error = False, enPasRank = 5, enPasFile = 4, pawnNearby = True\<rparr>,
        Inr ''f8d626aaaf278664'')"
    by (simp add: fenOf_def run)
  have r3: "hashPosition sampleTable newChessHasher
              (fenOf ''8/8/8/8/3p4/8/8/8'' ''w'' ''-'' ''e6'' ''0'' ''1'')
     = (\<lparr>error = False, enPasRank = 5, enPasFile = 4, pawnNearby = False\<rparr>,
        Inr ''f8d626aaaf278515'')"
    by (simp add: fenOf_def run)
  have ne: "''0000000000000315'' \<noteq> ''Wrong position''" "''f8d626aaaf278664'' \<noteq> ''Wrong position''"
    "''f8d626aaaf278515'' \<noteq> ''Wrong position''"
    by simp_all
  have d: "declaredTarget ''e3'' = Some (2, 4)" "declaredTarget ''e6'' = Some (5, 4)"
    by (simp_all add: declaredTarget_def fileOf_def rankOf_def)
  note t1 = en_passant_pawn_by_target_rank [OF r1 ne(1), unfolded d]
  note t2 = en_passant_pawn_by_target_rank [OF r2 ne(2), unfolded d]
  note t3 = en_passant_pawn_by_target_rank [OF r3 ne(3), unfolded d]
  from t1 have a1: "adjacentPawn (splitStr (CHR ''/'') ''8/8/8/8/3p4/8/8/8'') 2 4"
    and w1: "fst (hashPosition sampleTable newChessHasher
            (fenOf ''8/8/8/8/3p4/8/8/8'' ''w'' ''-'' ''e3'' ''0'' ''1''))
       = \<lparr>error = False, enPasRank = 2, enPasFile = 4, pawnNearby = True\<rparr>"
    by (simp_all only: option.case prod.case ChessHasher.simps simp_thms)
  from t2 have a2: "adjacentPawn (splitStr (CHR ''/'') ''8/8/8/3P4/8/8/8/8'') 5 4"
    by (simp only: option.case prod.case ChessHasher.simps simp_thms)
  from t3 have a3: "\<not> adjacentPawn (splitStr (CHR ''/'') ''8/8/8/8/3p4/8/8/8'') 5 4"
    by (simp only: option.case prod.case ChessHasher.simps simp_thms)
  show ?thesis
    by (intro conjI) (fact r1 d a1 w1 r2 a2 r3 a3)+
qed

text \<open>
  C8 as stated fails: on \<open>8/8/8/8/3p4/8/8/8 b - e3 0 1\<close> black is to move, the board
  holds no white pawn, and the en-passant constant 776 is XOR-ed in (the hash differs from
  the one with the field \<open>-\<close>): the adjacent pawn is black, of the side to move.
\<close>

theorem en_passant_pawn_of_side_to_move:
  "hashPosition sampleTable newChessHasher ''8/8/8/8/3p4/8/8/8 b - e3 0 1''
     = (\<lparr>error = False, enPasRank = 2, enPasFile = 4, pawnNearby = True\<rparr>,
        Inr ''0000000000000315'')
   \<and> snd (hashPosition sampleTable newChessHasher ''8/8/8/8/3p4/8/8/8 b - - 0 1'')
       = Inr ''000000000000001c''
   \<and> splitStr (CHR '' '') ''8/8/8/8/3p4/8/8/8 b - e3 0 1'' ! 1 = ''b''
   \<and> CHR ''P'' \<notin> set ''8/8/8/8/3p4/8/8/8 b - e3 0 1''"
  by (simp add: run)

end
